theory Spec2Isabelle
  imports Main "HOL-Library.Sublist"
begin

section \<open>Text\<close>

text \<open>
  Python's \<^verbatim>\<open>str\<close> is a sequence of Unicode code points, and the program's own
  messages are Japanese, so text is a list of code points. The chart file is read in
  text mode: the model starts from the decoded text (after the newline translation of
  \<^verbatim>\<open>open(..., 'r')\<close>).
\<close>

type_synonym ustr = "nat list"

definition u :: "string \<Rightarrow> ustr" where
  "u s = map of_char s"

text \<open>\<^verbatim>\<open>str.isspace\<close> for one code point, the set \<^verbatim>\<open>str.strip()\<close> removes.\<close>

definition is_space :: "nat \<Rightarrow> bool" where
  "is_space c \<longleftrightarrow>
     (9 \<le> c \<and> c \<le> 13) \<or> (28 \<le> c \<and> c \<le> 32) \<or> c = 133 \<or> c = 160 \<or> c = 5760 \<or>
     (8192 \<le> c \<and> c \<le> 8202) \<or> c = 8232 \<or> c = 8233 \<or> c = 8239 \<or> c = 8287 \<or> c = 12288"

definition strip :: "ustr \<Rightarrow> ustr" where
  "strip s = rev (dropWhile is_space (rev (dropWhile is_space s)))"

text \<open>\<^verbatim>\<open>pat in s\<close> on two strings: \<open>pat\<close> occurs in \<open>s\<close> as a contiguous block.\<close>

fun contains :: "ustr \<Rightarrow> ustr \<Rightarrow> bool" where
  "contains pat [] = (pat = [])"
| "contains pat (c # cs) = (prefix pat (c # cs) \<or> contains pat cs)"

section \<open>OsuFileParser\<close>

subsection \<open>The regular expressions\<close>

text \<open>
  \<^verbatim>\<open>(?=\n\[|\n$)\<close> at the start of \<open>rest\<close>: a newline followed by an opening bracket,
  or a newline at the end of the text. Without \<^verbatim>\<open>re.MULTILINE\<close>, \<^verbatim>\<open>$\<close> matches at the
  end of the text and just before a newline that ends the text.
\<close>

definition section_end :: "ustr \<Rightarrow> bool" where
  "section_end rest \<longleftrightarrow> prefix [10, 91] rest \<or> rest = [10] \<or> rest = [10, 10]"

text \<open>
  \<^verbatim>\<open>(.*?)(?=\n\[|\n$)\<close> under \<^verbatim>\<open>re.DOTALL\<close>, anchored at the start of the argument: the
  shortest prefix after which the lookahead holds; no match when it holds nowhere.
\<close>

fun lazy_body :: "ustr \<Rightarrow> ustr option" where
  "lazy_body [] = None"
| "lazy_body (c # cs) =
     (if section_end (c # cs) then Some [] else map_option ((#) c) (lazy_body cs))"

text \<open>
  \<^verbatim>\<open>re.search(r'\[Name\](.*?)(?=\n\[|\n$)', content, re.DOTALL)\<close>, group 1: the start
  positions are tried from left to right, and a start where the header matches but the
  body does not is given up for the next one.
\<close>

fun search_section :: "ustr \<Rightarrow> ustr \<Rightarrow> ustr option" where
  "search_section hdr [] = None"
| "search_section hdr (c # cs) =
     (if prefix hdr (c # cs) then
        (case lazy_body (drop (length hdr) (c # cs)) of
           Some body \<Rightarrow> Some body
         | None \<Rightarrow> search_section hdr cs)
      else search_section hdr cs)"

text \<open>
  \<^verbatim>\<open>re.search(r'Label:(.*)', text)\<close>, group 1: after the first occurrence of the label,
  the rest of the line (\<^verbatim>\<open>.\<close> matches every code point but the newline).
\<close>

fun search_field :: "ustr \<Rightarrow> ustr \<Rightarrow> ustr option" where
  "search_field lbl [] = None"
| "search_field lbl (c # cs) =
     (if prefix lbl (c # cs) then Some (takeWhile (\<lambda>x. x \<noteq> 10) (drop (length lbl) (c # cs)))
      else search_field lbl cs)"

subsection \<open>parse_osu_file\<close>

record metadata =
  title :: ustr
  artist :: ustr
  version :: ustr
  creator :: ustr
  audio_filename :: ustr

text \<open>\<^verbatim>\<open>m.group(1).strip() if m else ""\<close>\<close>

definition field_value :: "ustr \<Rightarrow> ustr \<Rightarrow> ustr" where
  "field_value lbl text = (case search_field lbl text of Some v \<Rightarrow> strip v | None \<Rightarrow> [])"

definition audio_of :: "ustr \<Rightarrow> ustr" where
  "audio_of content =
     (case search_section (u ''[General]'') content of
        Some general \<Rightarrow>
          (case search_field (u ''AudioFilename:'') general of
             Some v \<Rightarrow> strip v
           | None \<Rightarrow> [])
      | None \<Rightarrow> [])"

text \<open>
  The body of the \<^verbatim>\<open>try\<close> once the file is read. The empty dictionary the source
  returns when there is no metadata section is \<open>None\<close>; a dictionary with the five
  keys is \<open>Some\<close>, and is the only one that is true as a condition.
\<close>

definition extract_metadata :: "ustr \<Rightarrow> metadata option" where
  "extract_metadata content =
     (case search_section (u ''[Metadata]'') content of
        Some metadata_text \<Rightarrow>
          Some \<lparr>title = field_value (u ''Title:'') metadata_text,
                artist = field_value (u ''Artist:'') metadata_text,
                version = field_value (u ''Version:'') metadata_text,
                creator = field_value (u ''Creator:'') metadata_text,
                audio_filename = audio_of content\<rparr>
      | None \<Rightarrow> None)"

text \<open>
  The parser object holds \<^verbatim>\<open>self.metadata\<close>, the empty dictionary at construction.
  \<open>parse_osu_file\<close> takes what opening and reading the file gave (\<open>None\<close> when either
  raised: the \<^verbatim>\<open>except\<close> returns the empty dictionary), and returns the result with
  the parser's new state. Only a successful parse assigns \<^verbatim>\<open>self.metadata\<close>.
\<close>

type_synonym parser = "metadata option"

definition parse_osu_file :: "ustr option \<Rightarrow> parser \<Rightarrow> metadata option \<times> parser" where
  "parse_osu_file file self =
     (case file of
        None \<Rightarrow> (None, self)
      | Some content \<Rightarrow>
          (case extract_metadata content of
             Some m \<Rightarrow> (Some m, Some m)
           | None \<Rightarrow> (None, self)))"

section \<open>The catalog service\<close>

text \<open>
  The remote catalog is reached through the client object \<^verbatim>\<open>self.sp\<close>. It is modelled
  as a state: the account's playlists, the answers to search queries, and a schedule of
  faults. Every request takes the next entry of the schedule; \<open>Some e\<close> makes the request
  raise an exception whose text is \<open>e\<close>, \<open>None\<close> (or an exhausted schedule) lets it
  through. Every request is logged, whether it fails or not.
\<close>

text \<open>
  A track object as the catalog returns it. The source reads its id, its name, the name
  of the first of its artists and its external link; a track object carries all four.
\<close>

record track =
  track_id :: ustr
  track_name :: ustr
  track_artist :: ustr
  track_url :: ustr

text \<open>
  An entry of a playlist: \<^verbatim>\<open>item['track']\<close> is null once the track has been removed from
  the catalog, and a track that is there can have a null id.
\<close>

datatype pl_item = Removed | Entry "ustr option"

record playlist =
  pl_id :: ustr
  pl_name :: ustr
  pl_description :: ustr
  pl_public :: bool
  pl_items :: "pl_item list"

datatype request =
    Search ustr
  | CurrentUser
  | CurrentUserPlaylists
  | UserPlaylistCreate ustr ustr bool ustr
  | PlaylistTracks ustr
  | NextPage ustr nat
  | PlaylistAddItems ustr "ustr list"

record catalog =
  cat_user :: ustr
  cat_search :: "ustr \<Rightarrow> track list"
  cat_playlists :: "playlist list"
  cat_page :: nat
  cat_mint :: "nat \<Rightarrow> ustr"
  cat_missing :: ustr
  cat_faults :: "ustr option list"
  cat_log :: "request list"

text \<open>
  \<open>cat_page\<close> is the page size of the track listing minus one (a page holds at least one
  entry), \<open>cat_mint n\<close> the id given to a playlist created when the account has \<open>n\<close>,
  \<open>cat_missing\<close> the text of the error for a playlist id the catalog does not know.
\<close>

definition request :: "request \<Rightarrow> catalog \<Rightarrow> ustr option \<times> catalog" where
  "request r cat =
     (case cat_faults cat of
        [] \<Rightarrow> (None, cat\<lparr>cat_log := cat_log cat @ [r]\<rparr>)
      | f # fs \<Rightarrow> (f, cat\<lparr>cat_faults := fs, cat_log := cat_log cat @ [r]\<rparr>))"

fun find_playlist :: "ustr \<Rightarrow> playlist list \<Rightarrow> playlist option" where
  "find_playlist pid [] = None"
| "find_playlist pid (p # ps) = (if pl_id p = pid then Some p else find_playlist pid ps)"

text \<open>A page of a playlist's entries; \<open>pg_next\<close> is the link to the page after it.\<close>

record page =
  pg_items :: "pl_item list"
  pg_next :: "(ustr \<times> nat) option"

definition page_at :: "catalog \<Rightarrow> playlist \<Rightarrow> nat \<Rightarrow> page" where
  "page_at cat p off =
     \<lparr>pg_items = take (Suc (cat_page cat)) (drop off (pl_items p)),
      pg_next = (if off + Suc (cat_page cat) < length (pl_items p)
                 then Some (pl_id p, off + Suc (cat_page cat)) else None)\<rparr>"

text \<open>
  The requests. \<open>sp_search\<close> is \<^verbatim>\<open>self.sp.search(q=query, type='track', limit=10)\<close> and
  gives the items of the result. \<open>sp_current_user_playlists\<close> gives the items of the
  reply, taken to be all of the account's playlists: the source reads the items of one
  reply and follows no link to a further page there.
\<close>

definition sp_search :: "ustr \<Rightarrow> catalog \<Rightarrow> (ustr + track list) \<times> catalog" where
  "sp_search q cat =
     (case request (Search q) cat of
        (Some e, cat') \<Rightarrow> (Inl e, cat')
      | (None, cat') \<Rightarrow> (Inr (cat_search cat q), cat'))"

definition sp_current_user :: "catalog \<Rightarrow> (ustr + ustr) \<times> catalog" where
  "sp_current_user cat =
     (case request CurrentUser cat of
        (Some e, cat') \<Rightarrow> (Inl e, cat')
      | (None, cat') \<Rightarrow> (Inr (cat_user cat), cat'))"

definition sp_current_user_playlists :: "catalog \<Rightarrow> (ustr + playlist list) \<times> catalog" where
  "sp_current_user_playlists cat =
     (case request CurrentUserPlaylists cat of
        (Some e, cat') \<Rightarrow> (Inl e, cat')
      | (None, cat') \<Rightarrow> (Inr (cat_playlists cat), cat'))"

definition sp_user_playlist_create ::
  "ustr \<Rightarrow> ustr \<Rightarrow> bool \<Rightarrow> ustr \<Rightarrow> catalog \<Rightarrow> (ustr + playlist) \<times> catalog" where
  "sp_user_playlist_create user name public description cat =
     (case request (UserPlaylistCreate user name public description) cat of
        (Some e, cat') \<Rightarrow> (Inl e, cat')
      | (None, cat') \<Rightarrow>
          (let p = \<lparr>pl_id = cat_mint cat (length (cat_playlists cat)), pl_name = name,
                    pl_description = description, pl_public = public, pl_items = []\<rparr>
           in (Inr p, cat'\<lparr>cat_playlists := cat_playlists cat @ [p]\<rparr>)))"

definition sp_playlist_tracks :: "ustr \<Rightarrow> catalog \<Rightarrow> (ustr + page) \<times> catalog" where
  "sp_playlist_tracks pid cat =
     (case request (PlaylistTracks pid) cat of
        (Some e, cat') \<Rightarrow> (Inl e, cat')
      | (None, cat') \<Rightarrow>
          (case find_playlist pid (cat_playlists cat) of
             None \<Rightarrow> (Inl (cat_missing cat), cat')
           | Some p \<Rightarrow> (Inr (page_at cat p 0), cat')))"

text \<open>\<^verbatim>\<open>self.sp.next(results)\<close>, which the source calls only when there is a link.\<close>

definition sp_next :: "ustr \<times> nat \<Rightarrow> catalog \<Rightarrow> (ustr + page) \<times> catalog" where
  "sp_next link cat =
     (case request (NextPage (fst link) (snd link)) cat of
        (Some e, cat') \<Rightarrow> (Inl e, cat')
      | (None, cat') \<Rightarrow>
          (case find_playlist (fst link) (cat_playlists cat) of
             None \<Rightarrow> (Inl (cat_missing cat), cat')
           | Some p \<Rightarrow> (Inr (page_at cat p (snd link)), cat')))"

fun add_items :: "ustr \<Rightarrow> ustr list \<Rightarrow> playlist list \<Rightarrow> playlist list" where
  "add_items pid ids [] = []"
| "add_items pid ids (p # ps) =
     (if pl_id p = pid then p\<lparr>pl_items := pl_items p @ map (\<lambda>i. Entry (Some i)) ids\<rparr> # ps
      else p # add_items pid ids ps)"

definition sp_playlist_add_items :: "ustr \<Rightarrow> ustr list \<Rightarrow> catalog \<Rightarrow> (ustr + unit) \<times> catalog" where
  "sp_playlist_add_items pid ids cat =
     (case request (PlaylistAddItems pid ids) cat of
        (Some e, cat') \<Rightarrow> (Inl e, cat')
      | (None, cat') \<Rightarrow>
          (case find_playlist pid (cat_playlists cat) of
             None \<Rightarrow> (Inl (cat_missing cat), cat')
           | Some p \<Rightarrow> (Inr (), cat'\<lparr>cat_playlists := add_items pid ids (cat_playlists cat)\<rparr>)))"

section \<open>SpotifyManager\<close>

text \<open>The messages of \<^verbatim>\<open>add_track_to_playlist\<close>, code point by code point.\<close>

definition msg_already_in_playlist :: ustr where
  "msg_already_in_playlist =
     [27005, 26354, 12399, 26082, 12395, 12503, 12524, 12452, 12522, 12473, 12488, 12395,
      23384, 22312, 12375, 12414, 12377]"

definition msg_added :: ustr where
  "msg_added =
     [27005, 26354, 12434, 12503, 12524, 12452, 12522, 12473, 12488, 12395, 36861, 21152,
      12375, 12414, 12375, 12383]"

definition msg_add_error :: ustr where
  "msg_add_error = [27005, 26354, 36861, 21152, 12456, 12521, 12540, 58, 32]"

text \<open>The description \<^verbatim>\<open>get_or_create_osu_playlist\<close> gives to a playlist it creates.\<close>

definition default_description :: ustr where
  "default_description =
     [111, 115, 117, 33, 12501, 12449, 12452, 12523, 12363, 12425, 25277, 20986, 12375,
      12383, 27005, 26354, 12398, 12521, 12452, 12502, 12521, 12522]"

text \<open>The default of its \<^verbatim>\<open>playlist_name\<close> parameter.\<close>

definition default_playlist_name :: ustr where
  "default_playlist_name =
     [111, 115, 117, 33, 32, 27005, 26354, 12521, 12452, 12502, 12521, 12522]"

text \<open>
  \<open>search_track\<close>: the query is \<^verbatim>\<open>f"track:{title} artist:{artist}"\<close>; the first item
  of a non-empty result, and \<^verbatim>\<open>None\<close> both for an empty result and for an exception.
\<close>

definition search_track :: "ustr \<Rightarrow> ustr \<Rightarrow> catalog \<Rightarrow> track option \<times> catalog" where
  "search_track title_arg artist_arg cat =
     (case sp_search (u ''track:'' @ title_arg @ u '' artist:'' @ artist_arg) cat of
        (Inl e, cat') \<Rightarrow> (None, cat')
      | (Inr [], cat') \<Rightarrow> (None, cat')
      | (Inr (t # ts), cat') \<Rightarrow> (Some t, cat'))"

definition create_playlist :: "ustr \<Rightarrow> ustr \<Rightarrow> catalog \<Rightarrow> ustr option \<times> catalog" where
  "create_playlist name description cat =
     (case sp_current_user cat of
        (Inl e, cat') \<Rightarrow> (None, cat')
      | (Inr user_id, cat') \<Rightarrow>
          (case sp_user_playlist_create user_id name True description cat' of
             (Inl e, cat'') \<Rightarrow> (None, cat'')
           | (Inr p, cat'') \<Rightarrow> (Some (pl_id p), cat'')))"

text \<open>
  The \<^verbatim>\<open>for\<close> loop over one page: an entry is kept when its track is there and the
  track's id is a non-empty string.
\<close>

fun item_ids :: "pl_item list \<Rightarrow> ustr list" where
  "item_ids [] = []"
| "item_ids (Removed # is) = item_ids is"
| "item_ids (Entry None # is) = item_ids is"
| "item_ids (Entry (Some i) # is) = (if i = [] then item_ids is else i # item_ids is)"

text \<open>
  What bounds the \<^verbatim>\<open>while\<close> loop: the entries of the playlist from the link of the
  page in hand onwards.
\<close>

definition pages_left :: "page \<Rightarrow> catalog \<Rightarrow> nat" where
  "pages_left pg cat =
     (case pg_next pg of
        None \<Rightarrow> 0
      | Some link \<Rightarrow>
          (case find_playlist (fst link) (cat_playlists cat) of
             None \<Rightarrow> 1
           | Some p \<Rightarrow> Suc (length (pl_items p) - snd link)))"

text \<open>
  The \<^verbatim>\<open>while\<close> loop of \<open>get_playlist_tracks\<close>, entered with a page in hand: \<open>Inl\<close>
  when fetching a later page raises.
\<close>

function follow_pages :: "page \<Rightarrow> ustr list \<Rightarrow> catalog \<Rightarrow> (ustr + ustr list) \<times> catalog" where
  "follow_pages results tracks cat =
     (case pg_next results of
        None \<Rightarrow> (Inr (tracks @ item_ids (pg_items results)), cat)
      | Some link \<Rightarrow>
          (case sp_next link cat of
             (Inl e, cat') \<Rightarrow> (Inl e, cat')
           | (Inr results', cat') \<Rightarrow>
               follow_pages results' (tracks @ item_ids (pg_items results)) cat'))"
  by pat_completeness auto

termination follow_pages
proof (relation "measure (\<lambda>(pg, tracks, cat). pages_left pg cat)")
  show "wf (measure (\<lambda>(pg, tracks, cat). pages_left pg cat))" by simp
next
  fix results :: page and tracks :: "ustr list" and cat link x y x2
  assume a: "pg_next results = Some link" "(x, y) = sp_next link cat" "x = Inr x2"
  have found_id: "pl_id p = pid" if "find_playlist pid ps = Some p" for pid ps p
    using that by (induction ps) (auto split: if_splits)
  from a obtain p where p: "find_playlist (fst link) (cat_playlists cat) = Some p"
    and x2: "x2 = page_at cat p (snd link)" and y: "cat_playlists y = cat_playlists cat"
    by (auto simp: sp_next_def request_def split: list.splits option.splits prod.splits)
  show "((x2, tracks @ item_ids (pg_items results), y), results, tracks, cat)
          \<in> measure (\<lambda>(pg, tracks, cat). pages_left pg cat)"
    using a(1) p found_id [OF p] by (auto simp: pages_left_def x2 y page_at_def)
qed

declare follow_pages.simps [simp del]

text \<open>
  \<open>get_playlist_tracks\<close>: an exception anywhere, on the first page or on a later one,
  gives the empty list, whatever had been collected.
\<close>

definition get_playlist_tracks :: "ustr \<Rightarrow> catalog \<Rightarrow> ustr list \<times> catalog" where
  "get_playlist_tracks playlist_id cat =
     (case sp_playlist_tracks playlist_id cat of
        (Inl e, cat') \<Rightarrow> ([], cat')
      | (Inr results, cat') \<Rightarrow>
          (case follow_pages results [] cat' of
             (Inl e, cat'') \<Rightarrow> ([], cat'')
           | (Inr tracks, cat'') \<Rightarrow> (tracks, cat'')))"

text \<open>
  \<open>is_track_in_playlist\<close>: its own \<^verbatim>\<open>except\<close> has nothing to catch, since
  \<open>get_playlist_tracks\<close> raises nothing and neither does \<^verbatim>\<open>in\<close> on a list of strings.
\<close>

definition is_track_in_playlist :: "ustr \<Rightarrow> ustr \<Rightarrow> catalog \<Rightarrow> bool \<times> catalog" where
  "is_track_in_playlist playlist_id tid cat =
     (case get_playlist_tracks playlist_id cat of
        (playlist_tracks, cat') \<Rightarrow> (tid \<in> set playlist_tracks, cat'))"

definition add_track_to_playlist ::
  "ustr \<Rightarrow> ustr \<Rightarrow> bool \<Rightarrow> catalog \<Rightarrow> (bool \<times> ustr) \<times> catalog" where
  "add_track_to_playlist playlist_id tid check_duplicate cat =
     (case (if check_duplicate then is_track_in_playlist playlist_id tid cat else (False, cat)) of
        (True, cat') \<Rightarrow> ((False, msg_already_in_playlist), cat')
      | (False, cat') \<Rightarrow>
          (case sp_playlist_add_items playlist_id [tid] cat' of
             (Inl e, cat'') \<Rightarrow> ((False, msg_add_error @ e), cat'')
           | (Inr r, cat'') \<Rightarrow> ((True, msg_added), cat'')))"

definition get_or_create_osu_playlist :: "ustr \<Rightarrow> catalog \<Rightarrow> ustr option \<times> catalog" where
  "get_or_create_osu_playlist playlist_name cat =
     (case sp_current_user_playlists cat of
        (Inl e, cat') \<Rightarrow> (None, cat')
      | (Inr playlists, cat') \<Rightarrow>
          (case find (\<lambda>p. pl_name p = playlist_name) playlists of
             Some p \<Rightarrow> (Some (pl_id p), cat')
           | None \<Rightarrow> create_playlist playlist_name default_description cat'))"

section \<open>The file system\<close>

text \<open>
  A file holds its decoded text, or nothing when opening, reading or decoding it raises;
  a directory lists its entries in the order the system yields them. A path is the list
  of names from the root.
\<close>

datatype node = File "ustr option" | Dir "(ustr \<times> node) list"

type_synonym path = "ustr list"

fun lookup :: "node \<Rightarrow> path \<Rightarrow> node option" where
  "lookup n [] = Some n"
| "lookup n (x # xs) =
     (case n of
        File c \<Rightarrow> None
      | Dir es \<Rightarrow> (case map_of es x of None \<Rightarrow> None | Some m \<Rightarrow> lookup m xs))"

text \<open>\<^verbatim>\<open>open(file_path, 'r', encoding='utf-8').read()\<close>: \<open>None\<close> when it raises.\<close>

definition read_file :: "node \<Rightarrow> path \<Rightarrow> ustr option" where
  "read_file fs p = (case lookup fs p of Some (File c) \<Rightarrow> c | _ \<Rightarrow> None)"

text \<open>The pattern \<^verbatim>\<open>*.osu\<close> on one name, letter case kept as on POSIX.\<close>

definition is_osu_name :: "ustr \<Rightarrow> bool" where
  "is_osu_name n \<longleftrightarrow> suffix (u ''.osu'') n"

text \<open>
  \<^verbatim>\<open>directory.glob("*.osu")\<close>: the entries of the directory itself whose name matches.
  A path that names a file yields nothing.
\<close>

fun glob :: "path \<Rightarrow> node \<Rightarrow> path list" where
  "glob p (File c) = []"
| "glob p (Dir es) = map (\<lambda>e. p @ [fst e]) (filter (\<lambda>e. is_osu_name (fst e)) es)"

text \<open>
  \<^verbatim>\<open>directory.rglob("*.osu")\<close>: the matches of the directory, then those of each
  subdirectory in turn.
\<close>

fun rglob :: "path \<Rightarrow> node \<Rightarrow> path list" where
  "rglob p (File c) = []"
| "rglob p (Dir es) =
     map (\<lambda>e. p @ [fst e]) (filter (\<lambda>e. is_osu_name (fst e)) es) @
     concat (map (\<lambda>(n, x). rglob (p @ [n]) x) es)"

section \<open>OsuToLibrary\<close>

text \<open>
  An entry of \<^verbatim>\<open>added_tracks\<close> or \<^verbatim>\<open>duplicate_tracks\<close>, and an entry of
  \<^verbatim>\<open>skipped_tracks\<close>. Both take their title and artist from the catalog's track.
\<close>

record hit =
  hit_title :: ustr
  hit_artist :: ustr
  hit_url :: ustr
  hit_file :: path

record skip =
  skip_title :: ustr
  skip_artist :: ustr
  skip_file :: path
  skip_reason :: ustr

record osu_to_library =
  parser :: parser
  spotify :: catalog
  added_tracks :: "hit list"
  duplicate_tracks :: "hit list"
  skipped_tracks :: "skip list"

text \<open>The messages \<open>process_osu_file\<close> returns, and the text it looks for in one.\<close>

definition msg_parse_failed :: ustr where
  "msg_parse_failed =
     [111, 115, 117, 12501, 12449, 12452, 12523, 12398, 35299, 26512, 12395, 22833, 25943,
      12375, 12414, 12375, 12383]"

definition msg_not_found :: "ustr \<Rightarrow> ustr \<Rightarrow> ustr" where
  "msg_not_found title_arg artist_arg =
     [27005, 26354, 12364, 35211, 12388, 12363, 12426, 12414, 12379, 12435, 12391, 12375,
      12383, 58, 32] @ title_arg @ [32, 45, 32] @ artist_arg"

definition msg_playlist_failed :: ustr where
  "msg_playlist_failed =
     [12503, 12524, 12452, 12522, 12473, 12488, 12398, 21462, 24471, 47, 20316, 25104,
      12395, 22833, 25943, 12375, 12414, 12375, 12383]"

definition duplicate_marker :: ustr where
  "duplicate_marker =
     [26082, 12395, 12503, 12524, 12452, 12522, 12473, 12488, 12395, 23384, 22312, 12375,
      12414, 12377]"

text \<open>A string or \<^verbatim>\<open>None\<close> as a condition: \<^verbatim>\<open>None\<close> and the empty string are false.\<close>

definition truthy :: "ustr option \<Rightarrow> bool" where
  "truthy s = (case s of None \<Rightarrow> False | Some t \<Rightarrow> t \<noteq> [])"

definition hit_of :: "track \<Rightarrow> path \<Rightarrow> hit" where
  "hit_of t osu_file_path =
     \<lparr>hit_title = track_name t, hit_artist = track_artist t, hit_url = track_url t,
      hit_file = osu_file_path\<rparr>"

definition skip_of :: "track \<Rightarrow> path \<Rightarrow> ustr \<Rightarrow> skip" where
  "skip_of t osu_file_path message =
     \<lparr>skip_title = track_name t, skip_artist = track_artist t, skip_file = osu_file_path,
      skip_reason = message\<rparr>"

text \<open>The last step of \<open>process_osu_file\<close>: one of the three lists takes the entry.\<close>

definition record_outcome ::
  "track \<Rightarrow> path \<Rightarrow> bool \<times> ustr \<Rightarrow> osu_to_library \<Rightarrow> osu_to_library" where
  "record_outcome t osu_file_path res self =
     (if fst res then self\<lparr>added_tracks := added_tracks self @ [hit_of t osu_file_path]\<rparr>
      else if contains duplicate_marker (snd res)
      then self\<lparr>duplicate_tracks := duplicate_tracks self @ [hit_of t osu_file_path]\<rparr>
      else self\<lparr>skipped_tracks := skipped_tracks self @ [skip_of t osu_file_path (snd res)]\<rparr>)"

definition process_osu_file ::
  "node \<Rightarrow> path \<Rightarrow> ustr option \<Rightarrow> bool \<Rightarrow> osu_to_library \<Rightarrow> (bool \<times> ustr) \<times> osu_to_library" where
  "process_osu_file fs osu_file_path playlist_id check_duplicate self =
     (case parse_osu_file (read_file fs osu_file_path) (parser self) of
        (None, ps) \<Rightarrow> ((False, msg_parse_failed), self\<lparr>parser := ps\<rparr>)
      | (Some m, ps) \<Rightarrow>
          (case search_track (title m) (artist m) (spotify self) of
             (None, cat1) \<Rightarrow>
               ((False, msg_not_found (title m) (artist m)), self\<lparr>parser := ps, spotify := cat1\<rparr>)
           | (Some t, cat1) \<Rightarrow>
               (case (if truthy playlist_id then (playlist_id, cat1)
                      else get_or_create_osu_playlist default_playlist_name cat1) of
                  (None, cat2) \<Rightarrow>
                    ((False, msg_playlist_failed), self\<lparr>parser := ps, spotify := cat2\<rparr>)
                | (Some pid, cat2) \<Rightarrow>
                    (if pid = []
                     then ((False, msg_playlist_failed), self\<lparr>parser := ps, spotify := cat2\<rparr>)
                     else
                       (case add_track_to_playlist pid (track_id t) check_duplicate cat2 of
                          (res, cat3) \<Rightarrow>
                            (res, record_outcome t osu_file_path res
                                    (self\<lparr>parser := ps, spotify := cat3\<rparr>)))))))"

text \<open>The \<^verbatim>\<open>for\<close> loop of \<open>process_directory\<close>, with its counter.\<close>

fun process_files ::
  "node \<Rightarrow> ustr option \<Rightarrow> bool \<Rightarrow> path list \<Rightarrow> nat \<Rightarrow> osu_to_library \<Rightarrow> nat \<times> osu_to_library" where
  "process_files fs playlist_id check_duplicate [] added_count self = (added_count, self)"
| "process_files fs playlist_id check_duplicate (osu_file # rest) added_count self =
     (case process_osu_file fs osu_file playlist_id check_duplicate self of
        ((success, message), self') \<Rightarrow>
          process_files fs playlist_id check_duplicate rest
            (if success then added_count + 1 else added_count) self')"

definition process_directory ::
  "node \<Rightarrow> path \<Rightarrow> ustr option \<Rightarrow> bool \<Rightarrow> bool \<Rightarrow> osu_to_library \<Rightarrow> nat \<times> osu_to_library" where
  "process_directory fs directory_path playlist_name check_duplicate recursive self =
     (case lookup fs directory_path of
        None \<Rightarrow> (0, self)
      | Some directory \<Rightarrow>
          (let osu_files = (if recursive then rglob directory_path directory
                            else glob directory_path directory)
           in if osu_files = [] then (0, self)
              else
                (case (case playlist_name of
                         None \<Rightarrow> (None, spotify self)
                       | Some name \<Rightarrow>
                           (if name = [] then (None, spotify self)
                            else get_or_create_osu_playlist name (spotify self))) of
                   (playlist_id, cat') \<Rightarrow>
                     process_files fs playlist_id check_duplicate osu_files 0
                       (self\<lparr>spotify := cat'\<rparr>))))"

section \<open>Vocabulary of the properties\<close>

subsection \<open>Chart text\<close>

text \<open>
  A value is trimmed when it neither starts nor ends with white space. \<open>first_at\<close>: the
  label occurs in the text right after \<open>pre\<close> and at no earlier position.
  \<open>at_line_start\<close>: what precedes is empty or ends a line; \<open>after_newline\<close>: what
  precedes ends a line.
\<close>

definition trimmed :: "ustr \<Rightarrow> bool" where
  "trimmed v \<longleftrightarrow> v = [] \<or> (\<not> is_space (hd v) \<and> \<not> is_space (last v))"

definition first_at :: "ustr \<Rightarrow> ustr \<Rightarrow> ustr \<Rightarrow> bool" where
  "first_at lbl pre src \<longleftrightarrow> prefix (pre @ lbl) src \<and> (\<forall>k < length pre. \<not> prefix lbl (drop k src))"

definition at_line_start :: "ustr \<Rightarrow> bool" where
  "at_line_start pre \<longleftrightarrow> pre = [] \<or> last pre = 10"

definition after_newline :: "ustr \<Rightarrow> bool" where
  "after_newline pre \<longleftrightarrow> pre \<noteq> [] \<and> last pre = 10"

text \<open>
  \<open>is_section\<close>: the content is \<open>pre\<close>, the header at its first occurrence, the body,
  and \<open>post\<close>, where \<open>post\<close> begins with the start of another section or is the newline
  that ends the text, and no earlier point of the body is followed by one of these: the
  body runs from the header to the first such point.
\<close>

definition is_section :: "ustr \<Rightarrow> ustr \<Rightarrow> ustr \<Rightarrow> ustr \<Rightarrow> ustr \<Rightarrow> bool" where
  "is_section hdr pre body post content \<longleftrightarrow>
     content = pre @ hdr @ body @ post \<and> first_at hdr pre content \<and> section_end post \<and>
     (\<forall>k < length body. \<not> section_end (drop k (body @ post)))"

text \<open>
  \<open>value_after\<close>: the value of a field in a section body. It is trimmed; it is empty
  when the label does not occur in the body; and when the first occurrence of the label
  starts a line of the body, the value is what follows the label up to the end of that
  line, without the white space around it. (Nothing is said of a label whose first
  occurrence is inside a line.)
\<close>

definition value_after :: "ustr \<Rightarrow> ustr \<Rightarrow> ustr \<Rightarrow> bool" where
  "value_after lbl v src \<longleftrightarrow>
     trimmed v \<and> (\<not> contains lbl src \<longrightarrow> v = []) \<and>
     (\<forall>pre. first_at lbl pre src \<and> after_newline pre \<longrightarrow>
        (\<exists>a b post. src = pre @ lbl @ a @ v @ b @ post \<and>
           (\<forall>c \<in> set (a @ b). is_space c \<and> c \<noteq> 10) \<and> 10 \<notin> set v \<and>
           (post = [] \<or> hd post = 10)))"

text \<open>
  \<open>section_of\<close>: the header occurs in the content, followed by the body, followed by the
  start of another section or by the newline that ends the text. \<open>lacks_section\<close>: the
  header starts no line of the content, and no occurrence of it is followed in that way.
\<close>

definition section_of :: "ustr \<Rightarrow> ustr \<Rightarrow> ustr \<Rightarrow> bool" where
  "section_of hdr body content \<longleftrightarrow>
     (\<exists>pre post. content = pre @ hdr @ body @ post \<and> section_end post)"

definition lacks_section :: "ustr \<Rightarrow> ustr \<Rightarrow> bool" where
  "lacks_section hdr content \<longleftrightarrow>
     (\<forall>pre. prefix (pre @ hdr) content \<longrightarrow> \<not> at_line_start pre) \<and>
     (\<forall>body. \<not> section_of hdr body content)"

text \<open>The parser's state after a sequence of calls on a new parser object.\<close>

definition parser_after :: "ustr option list \<Rightarrow> parser" where
  "parser_after files = foldl (\<lambda>self file. snd (parse_osu_file file self)) None files"

definition example_chart :: ustr where
  "example_chart = u ''[Metadata]\<newline>Title:Freedom Dive\<newline>Artist:xi\<newline>Version:FOUR DIMENSIONS\<newline>Creator:Nakagawa-Kanon\<newline>''"

subsection \<open>The catalog\<close>

text \<open>
  \<open>calm\<close>: no fault is scheduled, so every request goes through. \<open>add_requests\<close>: the
  requests that add to a playlist, among those made so far. \<open>listing_raises\<close>: fetching
  the entries of the playlist raises, on the first page or on a later one.
  \<open>playlist_ids\<close>: the track ids a playlist holds, those of its entries whose track is
  there and has an id. \<open>plain_errors\<close>: no error text of the catalog contains the phrase
  by which the program marks a duplicate; the client's errors are not worded by the
  program.
\<close>

definition calm :: "catalog \<Rightarrow> bool" where
  "calm cat \<longleftrightarrow> (\<forall>f \<in> set (cat_faults cat). f = None)"

fun is_add :: "request \<Rightarrow> bool" where
  "is_add (PlaylistAddItems pid ids) = True"
| "is_add r = False"

definition add_requests :: "catalog \<Rightarrow> request list" where
  "add_requests cat = filter is_add (cat_log cat)"

definition listing_raises :: "ustr \<Rightarrow> catalog \<Rightarrow> bool" where
  "listing_raises pid cat =
     (case sp_playlist_tracks pid cat of
        (Inl e, cat') \<Rightarrow> True
      | (Inr pg, cat') \<Rightarrow> (case follow_pages pg [] cat' of (Inl e, cat'') \<Rightarrow> True | (Inr ts, cat'') \<Rightarrow> False))"

definition playlist_ids :: "playlist \<Rightarrow> ustr list" where
  "playlist_ids p = [i. Entry (Some i) \<leftarrow> pl_items p, i \<noteq> []]"

definition plain_errors :: "catalog \<Rightarrow> bool" where
  "plain_errors cat \<longleftrightarrow>
     (\<forall>e. Some e \<in> set (cat_faults cat) \<longrightarrow> \<not> contains duplicate_marker e) \<and>
     \<not> contains duplicate_marker (cat_missing cat)"

subsection \<open>One run\<close>

text \<open>
  \<open>grows_by\<close>: the three lists of the second state are those of the first with the
  given entries appended. \<open>reaches_add\<close>: the point where \<open>process_osu_file\<close> calls
  \<open>add_track_to_playlist\<close>, with the track matched, the target playlist, and the parser
  and the catalog as they are then; \<open>None\<close> when the function has returned before.
  \<open>batch_playlist\<close>: the playlist \<open>process_directory\<close> resolves before its loop.
\<close>

definition grows_by ::
  "osu_to_library \<Rightarrow> osu_to_library \<Rightarrow> hit list \<Rightarrow> hit list \<Rightarrow> skip list \<Rightarrow> bool" where
  "grows_by self self' a d s \<longleftrightarrow>
     added_tracks self' = added_tracks self @ a \<and>
     duplicate_tracks self' = duplicate_tracks self @ d \<and>
     skipped_tracks self' = skipped_tracks self @ s"

definition reaches_add ::
  "node \<Rightarrow> path \<Rightarrow> ustr option \<Rightarrow> osu_to_library \<Rightarrow> (track \<times> ustr \<times> parser \<times> catalog) option" where
  "reaches_add fs osu_file_path playlist_id self =
     (case parse_osu_file (read_file fs osu_file_path) (parser self) of
        (None, ps) \<Rightarrow> None
      | (Some m, ps) \<Rightarrow>
          (case search_track (title m) (artist m) (spotify self) of
             (None, cat1) \<Rightarrow> None
           | (Some t, cat1) \<Rightarrow>
               (case (if truthy playlist_id then (playlist_id, cat1)
                      else get_or_create_osu_playlist default_playlist_name cat1) of
                  (None, cat2) \<Rightarrow> None
                | (Some pid, cat2) \<Rightarrow> if pid = [] then None else Some (t, pid, ps, cat2))))"

definition batch_playlist :: "ustr option \<Rightarrow> catalog \<Rightarrow> ustr option \<times> catalog" where
  "batch_playlist playlist_name cat =
     (case playlist_name of
        None \<Rightarrow> (None, cat)
      | Some name \<Rightarrow> if name = [] then (None, cat) else get_or_create_osu_playlist name cat)"

subsection \<open>The file system\<close>

text \<open>No directory holds two entries of the same name.\<close>

fun wf_node :: "node \<Rightarrow> bool" where
  "wf_node (File c) = True"
| "wf_node (Dir es) = (distinct (map fst es) \<and> list_all (\<lambda>(n, x). wf_node x) es)"

subsection \<open>Examples\<close>

text \<open>
  A catalog with two playlists, listed two entries to a page, that knows two tracks; a
  directory of charts, one of them without a metadata section, and a new run.
\<close>

definition example_track :: track where
  "example_track = \<lparr>track_id = u ''t1'', track_name = u ''FREEDOM DiVE'', track_artist = u ''xi'', track_url = u ''https://t1''\<rparr>"

definition example_track2 :: track where
  "example_track2 = \<lparr>track_id = u ''t2'', track_name = u ''Blue Zenith'', track_artist = u ''xi'', track_url = u ''https://t2''\<rparr>"

definition example_playlist :: playlist where
  "example_playlist =
     \<lparr>pl_id = u ''p1'', pl_name = u ''osu'', pl_description = [], pl_public = True,
      pl_items = [Entry (Some (u ''a'')), Removed, Entry (Some (u ''b'')), Entry None, Entry (Some (u ''c''))]\<rparr>"

definition example_seen :: playlist where
  "example_seen =
     \<lparr>pl_id = u ''p2'', pl_name = u ''seen'', pl_description = [], pl_public = True,
      pl_items = [Entry (Some (u ''t1''))]\<rparr>"

definition example_catalog :: catalog where
  "example_catalog =
     \<lparr>cat_user = u ''me'',
      cat_search = (\<lambda>q. if q = u ''track:Freedom Dive artist:xi'' then [example_track]
                        else if q = u ''track:Blue Zenith artist:xi'' then [example_track2] else []),
      cat_playlists = [example_playlist, example_seen],
      cat_page = 1,
      cat_mint = (\<lambda>n. u ''new''),
      cat_missing = u ''not found'',
      cat_faults = [],
      cat_log = []\<rparr>"

definition example_chart2 :: ustr where
  "example_chart2 = u ''[General]\<newline>AudioFilename: audio.mp3\<newline>[Metadata]\<newline>Title:Blue Zenith\<newline>Artist:xi\<newline>[Events]''"

definition example_fs :: node where
  "example_fs =
     Dir [(u ''songs'', Dir [(u ''a.osu'', File (Some example_chart)),
                             (u ''b.osu'', File (Some (u ''osu file format v14''))),
                             (u ''c.osu'', File (Some example_chart2)),
                             (u ''readme.txt'', File (Some (u ''hello''))),
                             (u ''more'', Dir [(u ''d.osu'', File (Some example_chart))])])]"

definition example_app :: "catalog \<Rightarrow> osu_to_library" where
  "example_app cat = \<lparr>parser = None, spotify = cat, added_tracks = [], duplicate_tracks = [], skipped_tracks = []\<rparr>"

text \<open>A directory whose first chart names the metadata header inside a line only.\<close>

definition example_tags_fs :: node where
  "example_tags_fs =
     Dir [(u ''t.osu'', File (Some (u ''Tags:[Metadata] x\<newline>Title:y''))),
          (u ''a.osu'', File (Some example_chart))]"

section \<open>The parser\<close>

lemma strip_decomp:
  "\<exists>a b. s = a @ strip s @ b \<and> (\<forall>c \<in> set (a @ b). is_space c)"
proof -
  let ?t = "dropWhile is_space s"
  have "s = takeWhile is_space s @ ?t" by simp
  moreover have "?t = strip s @ rev (takeWhile is_space (rev ?t))"
    unfolding strip_def by (metis rev_append rev_rev_ident takeWhile_dropWhile_id)
  moreover have "\<forall>c \<in> set (takeWhile is_space s @ rev (takeWhile is_space (rev ?t))). is_space c"
    by (auto dest: set_takeWhileD)
  ultimately show ?thesis by (metis append.assoc)
qed

lemma trimmed_strip: "trimmed (strip s)"
proof (cases "strip s = []")
  case True
  then show ?thesis by (simp add: trimmed_def)
next
  case False
  let ?t = "dropWhile is_space s"
  let ?r = "dropWhile is_space (rev ?t)"
  from False have r: "?r \<noteq> []" by (simp add: strip_def)
  then have t: "?t \<noteq> []" by (metis dropWhile.simps(1) rev.simps(1))
  have "\<not> is_space (hd ?r)" using r by (rule hd_dropWhile)
  then have l: "\<not> is_space (last (strip s))" using r by (simp add: strip_def last_rev)
  have "last ?r = last (rev ?t)" using r
    by (metis last_appendR takeWhile_dropWhile_id)
  also have "\<dots> = hd ?t" using t by (simp add: last_rev)
  finally have "hd (strip s) = hd ?t" using r by (simp add: strip_def hd_rev)
  moreover have "\<not> is_space (hd ?t)" using t by (rule hd_dropWhile)
  ultimately show ?thesis using l by (simp add: trimmed_def)
qed

lemma search_field_Some:
  "search_field lbl src = Some v \<Longrightarrow>
     \<exists>pre post. src = pre @ lbl @ v @ post \<and> first_at lbl pre src \<and> 10 \<notin> set v \<and>
       (post = [] \<or> hd post = 10)"
proof (induction src)
  case Nil
  then show ?case by simp
next
  case (Cons c cs)
  show ?case
  proof (cases "prefix lbl (c # cs)")
    case True
    then obtain r where r: "c # cs = lbl @ r" by (auto simp: prefix_def)
    let ?v = "takeWhile (\<lambda>x. x \<noteq> 10) r" and ?post = "dropWhile (\<lambda>x. x \<noteq> 10) r"
    from r have d: "drop (length lbl) (c # cs) = r" by simp
    from True Cons.prems d have v: "v = ?v" by simp
    have "c # cs = [] @ lbl @ ?v @ ?post" using r by simp
    moreover have "first_at lbl [] (c # cs)" using True by (simp add: first_at_def)
    moreover have "10 \<notin> set ?v" by (auto dest: set_takeWhileD)
    moreover have "?post = [] \<or> hd ?post = 10"
      using hd_dropWhile [of "\<lambda>x. x \<noteq> 10" r] by auto
    ultimately show ?thesis unfolding v by blast
  next
    case False
    with Cons.prems have "search_field lbl cs = Some v" by simp
    from Cons.IH [OF this] obtain pre post where
      p: "cs = pre @ lbl @ v @ post" "first_at lbl pre cs" "10 \<notin> set v" "post = [] \<or> hd post = 10"
      by blast
    have "first_at lbl (c # pre) (c # cs)"
      using p(2) False by (auto simp: first_at_def less_Suc_eq_0_disj)
    moreover have "c # cs = (c # pre) @ lbl @ v @ post" using p(1) by simp
    ultimately show ?thesis using p(3,4) by blast
  qed
qed

lemma search_field_contains: "(search_field lbl src = None) = (\<not> contains lbl src)" if "lbl \<noteq> []"
  using that by (induction src) auto

lemma lazy_body_Some: "lazy_body s = Some body \<Longrightarrow> \<exists>post. s = body @ post \<and> section_end post"
proof (induction s arbitrary: body)
  case Nil
  then show ?case by simp
next
  case (Cons c cs)
  then show ?case by (cases "section_end (c # cs)") auto
qed

lemma search_section_Some:
  "search_section hdr content = Some body \<Longrightarrow> section_of hdr body content"
proof (induction content)
  case Nil
  then show ?case by simp
next
  case (Cons c cs)
  have step: "section_of hdr body (c # cs)" if "section_of hdr body cs"
  proof -
    from that obtain pre post where "cs = pre @ hdr @ body @ post" "section_end post"
      by (auto simp: section_of_def)
    then have "c # cs = (c # pre) @ hdr @ body @ post \<and> section_end post" by simp
    then show ?thesis unfolding section_of_def by blast
  qed
  show ?case
  proof (cases "prefix hdr (c # cs)")
    case True
    then obtain r where r: "c # cs = hdr @ r" by (auto simp: prefix_def)
    show ?thesis
    proof (cases "lazy_body r")
      case None
      moreover from r have "drop (length hdr) (c # cs) = r" by simp
      ultimately have "search_section hdr cs = Some body" using True Cons.prems by simp
      then show ?thesis using Cons.IH step by blast
    next
      case (Some b)
      moreover from r have "drop (length hdr) (c # cs) = r" by simp
      ultimately have "b = body" using True Cons.prems by simp
      with Some lazy_body_Some obtain post where "r = body @ post" "section_end post" by blast
      with r have "c # cs = [] @ hdr @ body @ post \<and> section_end post" by simp
      then show ?thesis unfolding section_of_def by blast
    qed
  next
    case False
    with Cons.prems have "search_section hdr cs = Some body" by simp
    then show ?thesis using Cons.IH step by blast
  qed
qed

lemmas parser_eval = extract_metadata_def u_def section_end_def field_value_def audio_of_def strip_def is_space_def

lemma lazy_body_complete: "section_end post \<Longrightarrow> lazy_body (body @ post) \<noteq> None"
proof (induction body)
  case Nil
  then show ?case by (cases post) (auto simp: section_end_def)
next
  case (Cons c cs)
  then show ?case by simp
qed

lemma search_section_complete:
  assumes "section_of hdr body content"
  shows "search_section hdr content \<noteq> None"
proof -
  from assms obtain pre post where c: "content = pre @ hdr @ body @ post" and e: "section_end post"
    by (auto simp: section_of_def)
  have "search_section hdr (pre @ hdr @ body @ post) \<noteq> None"
  proof (induction pre)
    case Nil
    from e have "post \<noteq> []" by (auto simp: section_end_def)
    then obtain x xs where x: "hdr @ body @ post = x # xs" by (cases "hdr @ body @ post") auto
    have "drop (length hdr) (x # xs) = body @ post" using x [symmetric] by simp
    moreover have "prefix hdr (x # xs)" using x [symmetric] by simp
    ultimately have "search_section hdr (x # xs) \<noteq> None"
      using lazy_body_complete [OF e, of body] by (auto split: option.splits)
    then show ?case using x by simp
  next
    case (Cons p ps)
    then show ?case by (auto split: option.splits)
  qed
  then show ?thesis using c by simp
qed

lemma nonempty_labels:
  "u ''Title:'' \<noteq> []" "u ''Artist:'' \<noteq> []" "u ''Version:'' \<noteq> []" "u ''Creator:'' \<noteq> []"
  "u ''AudioFilename:'' \<noteq> []"
  by (simp_all add: u_def)

lemma trimmed_Nil: "trimmed []"
  by (simp add: trimmed_def)

lemma trimmed_audio_of: "trimmed (audio_of content)"
  by (simp add: audio_of_def trimmed_strip trimmed_Nil split: option.splits)

lemma search_section_None: "\<not> contains hdr content \<Longrightarrow> search_section hdr content = None"
  by (induction content) auto

lemma first_at_unique:
  assumes "first_at lbl pre src" "first_at lbl pre' src"
  shows "pre = pre'"
proof -
  have occ: "prefix lbl (drop (length p) src)" if "first_at lbl p src" for p
    using that by (auto simp: first_at_def prefix_def)
  have le: "length p \<le> length q" if "first_at lbl p src" "first_at lbl q src" for p q
  proof (rule ccontr)
    assume "\<not> length p \<le> length q"
    then have "length q < length p" by simp
    with that(1) have "\<not> prefix lbl (drop (length q) src)" by (simp add: first_at_def)
    with occ [OF that(2)] show False by simp
  qed
  have "length pre = length pre'" using le [OF assms] le [OF assms(2,1)] by simp
  moreover have "prefix pre src" "prefix pre' src"
    using assms by (auto simp: first_at_def prefix_def)
  ultimately show ?thesis by (auto simp: prefix_def)
qed

lemma first_at_Cons:
  "first_at hdr (p # ps) (p' # s) \<Longrightarrow> first_at hdr ps s \<and> \<not> prefix hdr (p' # s)"
proof -
  assume a: "first_at hdr (p # ps) (p' # s)"
  then have "\<not> prefix hdr (drop 0 (p' # s))" unfolding first_at_def by (metis length_greater_0_conv list.distinct(1))
  moreover have "\<not> prefix hdr (drop k s)" if "k < length ps" for k
  proof -
    from that have "Suc k < length (p # ps)" by simp
    with a have "\<not> prefix hdr (drop (Suc k) (p' # s))" unfolding first_at_def by blast
    then show ?thesis by simp
  qed
  moreover have "prefix (ps @ hdr) s" using a by (simp add: first_at_def)
  ultimately show ?thesis by (simp add: first_at_def)
qed

lemma lazy_body_shortest:
  "section_end post \<Longrightarrow> \<forall>k < length body. \<not> section_end (drop k (body @ post)) \<Longrightarrow>
   lazy_body (body @ post) = Some body"
proof (induction body)
  case Nil
  then show ?case by (cases post) (auto simp: section_end_def)
next
  case (Cons c cs)
  from Cons.prems(2) have "\<not> section_end (drop 0 ((c # cs) @ post))" by blast
  then have 0: "\<not> section_end (c # cs @ post)" by simp
  have "\<not> section_end (drop k (cs @ post))" if "k < length cs" for k
  proof -
    from that have "Suc k < length (c # cs)" by simp
    with Cons.prems(2) have "\<not> section_end (drop (Suc k) ((c # cs) @ post))" by blast
    then show ?thesis by simp
  qed
  with Cons.IH [OF Cons.prems(1)] have "lazy_body (cs @ post) = Some cs" by blast
  with 0 show ?case by simp
qed

lemma search_section_is_section:
  assumes "is_section hdr pre body post content"
  shows "search_section hdr content = Some body"
proof -
  from assms have c: "content = pre @ hdr @ body @ post" and f: "first_at hdr pre content"
    and e: "section_end post"
    and s: "\<forall>k < length body. \<not> section_end (drop k (body @ post))"
    unfolding is_section_def by blast+
  have lb: "lazy_body (body @ post) = Some body" using e s by (rule lazy_body_shortest)
  have "first_at hdr pre (pre @ hdr @ body @ post) \<Longrightarrow>
        search_section hdr (pre @ hdr @ body @ post) = Some body"
  proof (induction pre)
    case Nil
    from e have "post \<noteq> []" by (auto simp: section_end_def)
    then obtain x xs where x: "hdr @ body @ post = x # xs" by (cases "hdr @ body @ post") auto
    have "drop (length hdr) (x # xs) = body @ post" using x [symmetric] by simp
    moreover have "prefix hdr (x # xs)" using x [symmetric] by simp
    ultimately have "search_section hdr (x # xs) = Some body" using lb by simp
    then show ?case using x by simp
  next
    case (Cons p ps)
    from first_at_Cons [of hdr p ps p "ps @ hdr @ body @ post"] Cons.prems
    have "first_at hdr ps (ps @ hdr @ body @ post)" "\<not> prefix hdr (p # ps @ hdr @ body @ post)"
      by simp_all
    with Cons.IH show ?case by simp
  qed
  with f show ?thesis unfolding c by blast
qed

lemma value_after_field_value:
  assumes "lbl \<noteq> []"
  shows "value_after lbl (field_value lbl src) src"
proof (cases "search_field lbl src")
  case None
  then have "\<not> contains lbl src" using assms search_field_contains [of lbl src] by simp
  moreover have "\<not> first_at lbl pre src" for pre
  proof
    assume "first_at lbl pre src"
    then obtain r where "src = pre @ lbl @ r" by (auto simp: first_at_def prefix_def)
    then have "search_field lbl src \<noteq> None"
      using assms by (induction pre arbitrary: src) (auto simp: neq_Nil_conv)
    with None show False by simp
  qed
  ultimately show ?thesis using None
    by (simp add: value_after_def field_value_def trimmed_Nil)
next
  case (Some v0)
  from search_field_Some [OF Some] obtain pre0 post where
    p: "src = pre0 @ lbl @ v0 @ post" "first_at lbl pre0 src" "10 \<notin> set v0" "post = [] \<or> hd post = 10"
    by blast
  from strip_decomp [of v0] obtain a b where
    ab: "v0 = a @ strip v0 @ b" "\<forall>c \<in> set (a @ b). is_space c" by blast
  have c: "contains lbl src" using Some assms search_field_contains [of lbl src] by auto
  have n: "\<forall>c \<in> set (a @ b). is_space c \<and> c \<noteq> 10" "10 \<notin> set (strip v0)"
    using ab p(3) by (metis Un_iff set_append)+
  have d: "src = pre0 @ lbl @ a @ strip v0 @ b @ post" using p(1) ab(1) by (metis append.assoc)
  have "\<exists>a b post. src = pre @ lbl @ a @ strip v0 @ b @ post \<and>
           (\<forall>c \<in> set (a @ b). is_space c \<and> c \<noteq> 10) \<and> 10 \<notin> set (strip v0) \<and>
           (post = [] \<or> hd post = 10)"
    if "first_at lbl pre src" for pre
  proof -
    have "pre = pre0" using that p(2) by (rule first_at_unique)
    with d n p(4) show ?thesis by blast
  qed
  then show ?thesis using c Some by (simp add: value_after_def field_value_def trimmed_strip)
qed

lemma audio_of_field_value:
  "audio_of content =
     (case search_section (u ''[General]'') content of
        Some general \<Rightarrow> field_value (u ''AudioFilename:'') general | None \<Rightarrow> [])"
  by (simp add: audio_of_def field_value_def split: option.splits)

lemma all_less_list_all: "(\<forall>k < n. P k) \<longleftrightarrow> list_all P [0..<n]"
  by (auto simp: list_all_iff)

lemmas section_eval = is_section_def first_at_def at_line_start_def section_end_def
  all_less_list_all u_def

lemma section_of_contains: "section_of hdr body content \<Longrightarrow> contains hdr content"
proof -
  assume "section_of hdr body content"
  then obtain pre post where "content = pre @ hdr @ body @ post" by (auto simp: section_of_def)
  moreover have "contains hdr s" if "prefix hdr s" for s
    using that by (cases s) auto
  then have "contains hdr (pre @ hdr @ r)" for r
    by (induction pre) auto
  ultimately show ?thesis by simp
qed

lemma header_positions:
  "(\<forall>pre. prefix (pre @ hdr) s \<longrightarrow> P pre) \<longleftrightarrow>
   (\<forall>k < Suc (length s). prefix hdr (drop k s) \<longrightarrow> P (take k s))"
proof (intro iffI allI impI)
  fix k
  assume a: "\<forall>pre. prefix (pre @ hdr) s \<longrightarrow> P pre" and k: "k < Suc (length s)" "prefix hdr (drop k s)"
  then have "prefix (take k s @ hdr) s"
    by (metis append_take_drop_id same_prefix_prefix)
  with a show "P (take k s)" by blast
next
  fix pre
  assume a: "\<forall>k < Suc (length s). prefix hdr (drop k s) \<longrightarrow> P (take k s)" and p: "prefix (pre @ hdr) s"
  then obtain r where s: "s = pre @ hdr @ r" by (auto simp: prefix_def)
  then have "length pre < Suc (length s)" "prefix hdr (drop (length pre) s)" "take (length pre) s = pre"
    by simp_all
  with a show "P pre" by metis
qed

lemma no_section_of: "search_section hdr content = None \<Longrightarrow> \<forall>body. \<not> section_of hdr body content"
  using search_section_complete by blast

section \<open>The catalog and the playlist listing\<close>

lemma request_fields [simp]:
  "cat_playlists (snd (request r cat)) = cat_playlists cat"
  "cat_page (snd (request r cat)) = cat_page cat"
  "cat_search (snd (request r cat)) = cat_search cat"
  "cat_user (snd (request r cat)) = cat_user cat"
  "cat_mint (snd (request r cat)) = cat_mint cat"
  "cat_missing (snd (request r cat)) = cat_missing cat"
  "cat_log (snd (request r cat)) = cat_log cat @ [r]"
  by (simp_all add: request_def split: list.splits)

lemma request_calm: "calm cat \<Longrightarrow> fst (request r cat) = None \<and> calm (snd (request r cat))"
  by (auto simp: request_def calm_def split: list.splits)

lemma found_id: "find_playlist pid ps = Some p \<Longrightarrow> pl_id p = pid"
  by (induction ps) (auto split: if_splits)

lemma page_at_request [simp]: "page_at (snd (request r cat)) p off = page_at cat p off"
  by (simp add: page_at_def)

lemma item_ids_append: "item_ids (xs @ ys) = item_ids xs @ item_ids ys"
  by (induction xs rule: item_ids.induct) auto

lemma item_ids_comprehension: "item_ids xs = [i. Entry (Some i) \<leftarrow> xs, i \<noteq> []]"
  by (induction xs rule: item_ids.induct) auto

lemma sp_next_calm:
  assumes "calm cat" "find_playlist pid (cat_playlists cat) = Some p"
  shows "sp_next (pid, off) cat = (Inr (page_at cat p off), snd (request (NextPage pid off) cat))"
  using assms request_calm [OF assms(1), of "NextPage pid off"]
  by (cases "request (NextPage pid off) cat") (simp add: sp_next_def)

lemma follow_pages_calm:
  assumes "calm cat" "find_playlist pid (cat_playlists cat) = Some p"
  shows "fst (follow_pages (page_at cat p off) acc cat) = Inr (acc @ item_ids (drop off (pl_items p)))"
  using assms
proof (induction "length (pl_items p) - off" arbitrary: off acc cat rule: less_induct)
  case less
  let ?n = "Suc (cat_page cat)"
  have id: "pl_id p = pid" using less.prems(2) by (rule found_id)
  show ?case
  proof (cases "off + ?n < length (pl_items p)")
    case False
    then have "pg_next (page_at cat p off) = None" by (simp add: page_at_def)
    moreover have "pg_items (page_at cat p off) = drop off (pl_items p)"
      using False by (simp add: page_at_def)
    ultimately show ?thesis by (subst follow_pages.simps) simp
  next
    case True
    let ?cat' = "snd (request (NextPage pid (off + ?n)) cat)"
    have nx: "pg_next (page_at cat p off) = Some (pid, off + ?n)"
      using True id by (simp add: page_at_def)
    have it: "pg_items (page_at cat p off) = take ?n (drop off (pl_items p))"
      by (simp add: page_at_def)
    have c': "calm ?cat'" "find_playlist pid (cat_playlists ?cat') = Some p"
      using less.prems request_calm by simp_all
    have "length (pl_items p) - (off + ?n) < length (pl_items p) - off" using True by simp
    from less.hyps [OF this c', of "acc @ item_ids (take ?n (drop off (pl_items p)))"]
    have ih: "fst (follow_pages (page_at cat p (off + ?n)) (acc @ item_ids (take ?n (drop off (pl_items p)))) ?cat')
        = Inr ((acc @ item_ids (take ?n (drop off (pl_items p)))) @ item_ids (drop (off + ?n) (pl_items p)))"
      by simp
    have "take ?n (drop off (pl_items p)) @ drop (off + ?n) (pl_items p) = drop off (pl_items p)"
      by (metis add.commute append_take_drop_id drop_drop)
    then have "item_ids (take ?n (drop off (pl_items p))) @ item_ids (drop (off + ?n) (pl_items p))
        = item_ids (drop off (pl_items p))"
      by (metis item_ids_append)
    with ih show ?thesis
      by (subst follow_pages.simps) (simp add: nx it sp_next_calm [OF less.prems])
  qed
qed

lemma get_playlist_tracks_calm:
  assumes "calm cat" "find_playlist pid (cat_playlists cat) = Some p"
  shows "fst (get_playlist_tracks pid cat) = item_ids (pl_items p)"
proof -
  obtain cat' where r: "request (PlaylistTracks pid) cat = (None, cat')"
    using request_calm [OF assms(1), of "PlaylistTracks pid"]
    by (cases "request (PlaylistTracks pid) cat") simp
  then have c': "cat' = snd (request (PlaylistTracks pid) cat)" by simp
  have "calm cat'" "find_playlist pid (cat_playlists cat') = Some p" "page_at cat' p 0 = page_at cat p 0"
    using assms request_calm by (simp_all add: c')
  with follow_pages_calm [of cat' pid p 0 "[]"]
  have "fst (follow_pages (page_at cat p 0) [] cat') = Inr (item_ids (pl_items p))" by simp
  then show ?thesis
    using r assms(2)
    by (cases "follow_pages (page_at cat p 0) [] cat'")
       (simp add: get_playlist_tracks_def sp_playlist_tracks_def)
qed

lemma add_requests_request:
  "add_requests (snd (request r cat)) = add_requests cat @ (if is_add r then [r] else [])"
  by (simp add: add_requests_def)

lemma snd_sp_next: "snd (sp_next link cat) = snd (request (NextPage (fst link) (snd link)) cat)"
  by (simp add: sp_next_def split: prod.splits option.splits)

lemma snd_sp_playlist_tracks: "snd (sp_playlist_tracks pid cat) = snd (request (PlaylistTracks pid) cat)"
  by (simp add: sp_playlist_tracks_def split: prod.splits option.splits)

lemma snd_sp_search: "snd (sp_search q cat) = snd (request (Search q) cat)"
  by (simp add: sp_search_def split: prod.splits option.splits)

lemma follow_pages_frame:
  "cat_playlists (snd (follow_pages pg acc cat)) = cat_playlists cat \<and>
   add_requests (snd (follow_pages pg acc cat)) = add_requests cat"
proof (induction pg acc cat rule: follow_pages.induct)
  case (1 results tracks cat)
  show ?case
  proof (cases "pg_next results")
    case None
    then show ?thesis by (subst (1 2) follow_pages.simps) simp
  next
    case (Some link)
    obtain x cat' where n: "sp_next link cat = (x, cat')" by (cases "sp_next link cat")
    then have c: "cat' = snd (request (NextPage (fst link) (snd link)) cat)"
      using snd_sp_next [of link cat] by simp
    show ?thesis
    proof (cases x)
      case (Inl e)
      with Some n c show ?thesis
        by (subst (1 2) follow_pages.simps) (simp add: add_requests_request)
    next
      case (Inr results')
      from "1.IH" [OF Some n [symmetric] Inr]
      have "cat_playlists (snd (follow_pages results' (tracks @ item_ids (pg_items results)) cat')) = cat_playlists cat'"
        "add_requests (snd (follow_pages results' (tracks @ item_ids (pg_items results)) cat')) = add_requests cat'"
        by simp_all
      with Some n Inr c show ?thesis
        by (subst (1 2) follow_pages.simps) (simp add: add_requests_request)
    qed
  qed
qed

lemma get_playlist_tracks_frame:
  "cat_playlists (snd (get_playlist_tracks pid cat)) = cat_playlists cat"
  "add_requests (snd (get_playlist_tracks pid cat)) = add_requests cat"
proof -
  obtain x cat' where n: "sp_playlist_tracks pid cat = (x, cat')" by (cases "sp_playlist_tracks pid cat")
  then have c: "cat' = snd (request (PlaylistTracks pid) cat)"
    using snd_sp_playlist_tracks [of pid cat] by simp
  have "cat_playlists (snd (get_playlist_tracks pid cat)) = cat_playlists cat \<and>
    add_requests (snd (get_playlist_tracks pid cat)) = add_requests cat"
  proof (cases x)
    case (Inl e)
    with n c show ?thesis by (simp add: get_playlist_tracks_def add_requests_request)
  next
    case (Inr pg)
    obtain y cat'' where f: "follow_pages pg [] cat' = (y, cat'')" by (cases "follow_pages pg [] cat'")
    with follow_pages_frame [of pg "[]" cat'] have "cat_playlists cat'' = cat_playlists cat'"
      "add_requests cat'' = add_requests cat'" by simp_all
    with n c Inr f show ?thesis
      by (cases y) (simp_all add: get_playlist_tracks_def add_requests_request)
  qed
  then show "cat_playlists (snd (get_playlist_tracks pid cat)) = cat_playlists cat"
    "add_requests (snd (get_playlist_tracks pid cat)) = add_requests cat" by simp_all
qed

lemma is_track_in_playlist_eq:
  "is_track_in_playlist pid tid cat =
     (tid \<in> set (fst (get_playlist_tracks pid cat)), snd (get_playlist_tracks pid cat))"
  by (simp add: is_track_in_playlist_def split: prod.splits)

lemma process_osu_file_reaches:
  assumes "reaches_add fs f playlist_id self = Some (t, pid, ps, cat2)"
  shows "process_osu_file fs f playlist_id chk self =
     (fst (add_track_to_playlist pid (track_id t) chk cat2),
      record_outcome t f (fst (add_track_to_playlist pid (track_id t) chk cat2))
        (self\<lparr>parser := ps, spotify := snd (add_track_to_playlist pid (track_id t) chk cat2)\<rparr>))"
  using assms
  by (auto simp: reaches_add_def process_osu_file_def split: prod.splits option.splits if_splits)

lemma process_osu_file_returns_early:
  assumes "reaches_add fs f playlist_id self = None"
  shows "\<not> fst (fst (process_osu_file fs f playlist_id chk self)) \<and>
     grows_by self (snd (process_osu_file fs f playlist_id chk self)) [] [] []"
  using assms
  by (auto simp: reaches_add_def process_osu_file_def grows_by_def split: prod.splits option.splits if_splits)

lemma add_requests_other: "\<not> is_add r \<Longrightarrow> add_requests (snd (request r cat)) = add_requests cat"
  by (simp add: add_requests_request)

lemma search_track_frame:
  "search_track a b cat = (r, cat') \<Longrightarrow> add_requests cat' = add_requests cat"
  using add_requests_other [of "Search (u ''track:'' @ a @ u '' artist:'' @ b)" cat]
    snd_sp_search [of "u ''track:'' @ a @ u '' artist:'' @ b" cat]
  by (auto simp: search_track_def split: prod.splits sum.splits list.splits)

lemma snd_sp_current_user: "snd (sp_current_user cat) = snd (request CurrentUser cat)"
  by (simp add: sp_current_user_def split: prod.splits option.splits)

lemma snd_sp_current_user_playlists:
  "snd (sp_current_user_playlists cat) = snd (request CurrentUserPlaylists cat)"
  by (simp add: sp_current_user_playlists_def split: prod.splits option.splits)

lemma add_requests_playlists [simp]: "add_requests (cat\<lparr>cat_playlists := ps\<rparr>) = add_requests cat"
  by (simp add: add_requests_def)

lemma add_requests_create:
  "add_requests (snd (sp_user_playlist_create user name pub desc cat)) = add_requests cat"
proof -
  obtain x c where r: "request (UserPlaylistCreate user name pub desc) cat = (x, c)"
    by (cases "request (UserPlaylistCreate user name pub desc) cat")
  then have "add_requests c = add_requests cat"
    using add_requests_other [of "UserPlaylistCreate user name pub desc" cat] by simp
  with r show ?thesis
    by (cases x) (simp_all add: sp_user_playlist_create_def Let_def)
qed

lemma create_playlist_frame:
  "add_requests (snd (create_playlist name desc cat)) = add_requests cat"
proof -
  obtain x c1 where a: "sp_current_user cat = (x, c1)" by (cases "sp_current_user cat")
  then have c1: "add_requests c1 = add_requests cat"
    using snd_sp_current_user [of cat] add_requests_other [of CurrentUser cat] by simp
  show ?thesis
  proof (cases x)
    case (Inl e)
    with a c1 show ?thesis by (simp add: create_playlist_def)
  next
    case (Inr user_id)
    with a c1 add_requests_create [of user_id name True desc c1] show ?thesis
      by (auto simp: create_playlist_def split: prod.splits sum.splits)
  qed
qed

lemma get_or_create_frame:
  "get_or_create_osu_playlist name cat = (r, cat') \<Longrightarrow> add_requests cat' = add_requests cat"
proof -
  assume g: "get_or_create_osu_playlist name cat = (r, cat')"
  obtain x c1 where a: "sp_current_user_playlists cat = (x, c1)"
    by (cases "sp_current_user_playlists cat")
  then have c1: "add_requests c1 = add_requests cat"
    using snd_sp_current_user_playlists [of cat] add_requests_other [of CurrentUserPlaylists cat]
    by simp
  show ?thesis
  proof (cases x)
    case (Inl e)
    with a c1 g show ?thesis by (simp add: get_or_create_osu_playlist_def)
  next
    case (Inr playlists)
    show ?thesis
    proof (cases "find (\<lambda>p. pl_name p = name) playlists")
      case None
      with a Inr g have "cat' = snd (create_playlist name default_description c1)"
        by (simp add: get_or_create_osu_playlist_def)
      then show ?thesis using c1 create_playlist_frame by simp
    next
      case (Some p)
      with a Inr g c1 show ?thesis by (simp add: get_or_create_osu_playlist_def)
    qed
  qed
qed

lemma reaches_add_frame:
  assumes "reaches_add fs f playlist_id self = Some (t, pid, ps, cat2)"
  shows "add_requests cat2 = add_requests (spotify self)"
  using assms
  by (auto simp: reaches_add_def dest!: search_track_frame get_or_create_frame
      split: prod.splits option.splits if_splits)

lemma add_track_member:
  assumes "tid \<in> set (fst (get_playlist_tracks pid cat))"
  shows "add_track_to_playlist pid tid True cat =
           ((False, msg_already_in_playlist), snd (get_playlist_tracks pid cat))"
  using assms by (simp add: add_track_to_playlist_def is_track_in_playlist_eq)

lemma add_track_not_member:
  assumes "tid \<notin> set (fst (get_playlist_tracks pid cat))"
  shows "add_track_to_playlist pid tid True cat =
           (case sp_playlist_add_items pid [tid] (snd (get_playlist_tracks pid cat)) of
              (Inl e, cat'') \<Rightarrow> ((False, msg_add_error @ e), cat'')
            | (Inr r, cat'') \<Rightarrow> ((True, msg_added), cat''))"
  using assms by (simp add: add_track_to_playlist_def is_track_in_playlist_eq)

lemma marker_in_already: "contains duplicate_marker msg_already_in_playlist"
  by (simp add: duplicate_marker_def msg_already_in_playlist_def)

lemma contains_skip:
  assumes "pat \<noteq> []" "hd pat \<notin> set xs"
  shows "contains pat (xs @ ys) = contains pat ys"
  using assms
proof (induction xs)
  case Nil
  then show ?case by simp
next
  case (Cons x xs)
  then obtain h pt where "pat = h # pt" "h \<noteq> x" by (cases pat) auto
  with Cons show ?case by simp
qed

lemma marker_in_add_error:
  "contains duplicate_marker (msg_add_error @ e) = contains duplicate_marker e"
  by (rule contains_skip) (simp_all add: duplicate_marker_def msg_add_error_def)

lemma add_requests_add_items:
  "add_requests (snd (sp_playlist_add_items pid ids cat)) = add_requests cat @ [PlaylistAddItems pid ids]"
  by (auto simp: sp_playlist_add_items_def request_def add_requests_def
      split: prod.splits option.splits list.splits)

lemma listing_raises_empty: "listing_raises pid cat \<Longrightarrow> fst (get_playlist_tracks pid cat) = []"
  by (auto simp: listing_raises_def get_playlist_tracks_def split: prod.splits sum.splits)

lemma find_first:
  "xs = ps @ p # qs \<Longrightarrow> P p \<Longrightarrow> \<forall>q \<in> set ps. \<not> P q \<Longrightarrow> find P xs = Some p"
  by (induction ps arbitrary: xs) auto

lemma request_passes:
  assumes "calm cat"
  obtains cat' where "request r cat = (None, cat')" "calm cat'"
    "cat_playlists cat' = cat_playlists cat" "cat_mint cat' = cat_mint cat"
    "cat_user cat' = cat_user cat"
proof -
  obtain x cat' where r: "request r cat = (x, cat')" by (cases "request r cat")
  then have "cat' = snd (request r cat)" by simp
  then have "cat_playlists cat' = cat_playlists cat" "cat_mint cat' = cat_mint cat"
    "cat_user cat' = cat_user cat"
    by simp_all
  moreover have "x = None" "calm cat'" using request_calm [OF assms, of r] r by simp_all
  ultimately show ?thesis using that r by simp
qed

lemma get_or_create_existing:
  assumes "calm cat" "find (\<lambda>p. pl_name p = name) (cat_playlists cat) = Some p"
  shows "fst (get_or_create_osu_playlist name cat) = Some (pl_id p)"
    "cat_playlists (snd (get_or_create_osu_playlist name cat)) = cat_playlists cat"
proof -
  from assms(1) obtain c1 where r: "request CurrentUserPlaylists cat = (None, c1)"
    "cat_playlists c1 = cat_playlists cat"
    by (rule request_passes)
  then have "get_or_create_osu_playlist name cat = (Some (pl_id p), c1)"
    using assms(2) by (simp add: get_or_create_osu_playlist_def sp_current_user_playlists_def)
  then show "fst (get_or_create_osu_playlist name cat) = Some (pl_id p)"
    "cat_playlists (snd (get_or_create_osu_playlist name cat)) = cat_playlists cat"
    using r(2) by simp_all
qed

lemma get_or_create_new:
  assumes "calm cat" "find (\<lambda>p. pl_name p = name) (cat_playlists cat) = None"
  defines "p' \<equiv> \<lparr>pl_id = cat_mint cat (length (cat_playlists cat)), pl_name = name,
                  pl_description = default_description, pl_public = True, pl_items = []\<rparr>"
  shows "fst (get_or_create_osu_playlist name cat) = Some (pl_id p')"
    "cat_playlists (snd (get_or_create_osu_playlist name cat)) = cat_playlists cat @ [p']"
proof -
  from assms(1) obtain c1 where r1: "request CurrentUserPlaylists cat = (None, c1)"
    "calm c1" "cat_playlists c1 = cat_playlists cat" "cat_mint c1 = cat_mint cat"
    by (rule request_passes)
  from r1(2) obtain c2 where r2: "request CurrentUser c1 = (None, c2)"
    "calm c2" "cat_playlists c2 = cat_playlists c1" "cat_mint c2 = cat_mint c1"
    by (rule request_passes)
  from r2(2) obtain c3 where r3:
    "request (UserPlaylistCreate (cat_user c1) name True default_description) c2 = (None, c3)"
    by (rule request_passes)
  have "get_or_create_osu_playlist name cat = (Some (pl_id p'), c3\<lparr>cat_playlists := cat_playlists cat @ [p']\<rparr>)"
    using assms(2) r1 r2 r3
    by (simp add: get_or_create_osu_playlist_def sp_current_user_playlists_def create_playlist_def
        sp_current_user_def sp_user_playlist_create_def Let_def p'_def)
  then show "fst (get_or_create_osu_playlist name cat) = Some (pl_id p')"
    "cat_playlists (snd (get_or_create_osu_playlist name cat)) = cat_playlists cat @ [p']"
    by simp_all
qed

lemma sp_next_cases:
  assumes "find_playlist pid (cat_playlists cat) = Some p"
  shows "sp_next (pid, off) cat =
     (case fst (request (NextPage pid off) cat) of
        Some e \<Rightarrow> Inl e | None \<Rightarrow> Inr (page_at cat p off),
      snd (request (NextPage pid off) cat))"
  using assms
  by (cases "request (NextPage pid off) cat") (simp add: sp_next_def split: option.splits)

lemma follow_pages_result:
  assumes "find_playlist pid (cat_playlists cat) = Some p"
    and "fst (follow_pages (page_at cat p off) acc cat) = Inr ts"
  shows "ts = acc @ item_ids (drop off (pl_items p))"
  using assms
proof (induction "length (pl_items p) - off" arbitrary: off acc cat rule: less_induct)
  case less
  let ?n = "Suc (cat_page cat)"
  have id: "pl_id p = pid" using less.prems(1) by (rule found_id)
  show ?case
  proof (cases "off + ?n < length (pl_items p)")
    case False
    then have "pg_next (page_at cat p off) = None"
      "pg_items (page_at cat p off) = drop off (pl_items p)"
      by (simp_all add: page_at_def)
    with less.prems(2) show ?thesis by (subst (asm) follow_pages.simps) simp
  next
    case True
    let ?cat' = "snd (request (NextPage pid (off + ?n)) cat)"
    let ?acc' = "acc @ item_ids (take ?n (drop off (pl_items p)))"
    have nx: "pg_next (page_at cat p off) = Some (pid, off + ?n)"
      using True id by (simp add: page_at_def)
    have it: "pg_items (page_at cat p off) = take ?n (drop off (pl_items p))"
      by (simp add: page_at_def)
    have go: "fst (follow_pages (page_at cat p (off + ?n)) ?acc' ?cat') = Inr ts"
      using less.prems(2)
      by (subst (asm) follow_pages.simps)
         (simp add: nx it sp_next_cases [OF less.prems(1)] split: option.splits)
    have c': "find_playlist pid (cat_playlists ?cat') = Some p"
      "page_at ?cat' p (off + ?n) = page_at cat p (off + ?n)"
      using less.prems(1) by simp_all
    have "length (pl_items p) - (off + ?n) < length (pl_items p) - off" using True by simp
    from less.hyps [OF this c'(1), of ?acc'] go c'(2)
    have "ts = ?acc' @ item_ids (drop (off + ?n) (pl_items p))" by simp
    moreover have "take ?n (drop off (pl_items p)) @ drop (off + ?n) (pl_items p) = drop off (pl_items p)"
      by (metis add.commute append_take_drop_id drop_drop)
    then have "item_ids (take ?n (drop off (pl_items p))) @ item_ids (drop (off + ?n) (pl_items p))
        = item_ids (drop off (pl_items p))"
      by (metis item_ids_append)
    ultimately show ?thesis by simp
  qed
qed

lemma get_playlist_tracks_listed:
  assumes "find_playlist pid (cat_playlists cat) = Some p" "\<not> listing_raises pid cat"
  shows "fst (get_playlist_tracks pid cat) = playlist_ids p"
proof -
  let ?cat' = "snd (request (PlaylistTracks pid) cat)"
  from assms have r: "sp_playlist_tracks pid cat = (Inr (page_at cat p 0), ?cat')"
    by (cases "request (PlaylistTracks pid) cat")
       (auto simp: sp_playlist_tracks_def listing_raises_def split: option.splits)
  obtain x c where f: "follow_pages (page_at cat p 0) [] ?cat' = (x, c)"
    by (cases "follow_pages (page_at cat p 0) [] ?cat'")
  with assms(2) r obtain ts where ts: "x = Inr ts"
    by (cases x) (auto simp: listing_raises_def)
  have "find_playlist pid (cat_playlists ?cat') = Some p" "page_at ?cat' p 0 = page_at cat p 0"
    using assms(1) by simp_all
  with follow_pages_result [of pid ?cat' p 0 "[]" ts] f ts have "ts = item_ids (pl_items p)"
    by simp
  with r f ts show ?thesis
    by (simp add: get_playlist_tracks_def playlist_ids_def item_ids_comprehension)
qed

lemma request_faults:
  "set (cat_faults (snd (request r cat))) \<subseteq> set (cat_faults cat)"
  by (auto simp: request_def split: list.splits)

lemma request_error_text: "fst (request r cat) = Some e \<Longrightarrow> Some e \<in> set (cat_faults cat)"
  by (auto simp: request_def split: list.splits)

lemma plain_errors_request: "plain_errors cat \<Longrightarrow> plain_errors (snd (request r cat))"
  using request_faults [of r cat] by (auto simp: plain_errors_def)

lemma plain_errors_follow_pages:
  "plain_errors cat \<Longrightarrow> plain_errors (snd (follow_pages pg acc cat))"
proof (induction pg acc cat rule: follow_pages.induct)
  case (1 results tracks cat)
  show ?case
  proof (cases "pg_next results")
    case None
    with "1.prems" show ?thesis by (subst follow_pages.simps) simp
  next
    case (Some link)
    obtain x cat' where n: "sp_next link cat = (x, cat')" by (cases "sp_next link cat")
    then have c: "cat' = snd (request (NextPage (fst link) (snd link)) cat)"
      using snd_sp_next [of link cat] by simp
    then have p: "plain_errors cat'" using "1.prems" by (simp add: plain_errors_request)
    show ?thesis
    proof (cases x)
      case (Inl e)
      with Some n p show ?thesis by (subst follow_pages.simps) simp
    next
      case (Inr results')
      from "1.IH" [OF Some n [symmetric] Inr p] Some n Inr show ?thesis
        by (subst follow_pages.simps) simp
    qed
  qed
qed

lemma plain_errors_get_playlist_tracks:
  assumes "plain_errors cat"
  shows "plain_errors (snd (get_playlist_tracks pid cat))"
proof -
  obtain x cat' where n: "sp_playlist_tracks pid cat = (x, cat')" by (cases "sp_playlist_tracks pid cat")
  then have "cat' = snd (request (PlaylistTracks pid) cat)"
    using snd_sp_playlist_tracks [of pid cat] by simp
  then have p: "plain_errors cat'" using assms by (simp add: plain_errors_request)
  show ?thesis
  proof (cases x)
    case (Inl e)
    with n p show ?thesis by (simp add: get_playlist_tracks_def)
  next
    case (Inr pg)
    obtain y cat'' where f: "follow_pages pg [] cat' = (y, cat'')" by (cases "follow_pages pg [] cat'")
    with plain_errors_follow_pages [OF p, of pg "[]"] have "plain_errors cat''" by simp
    with n Inr f show ?thesis by (cases y) (simp_all add: get_playlist_tracks_def)
  qed
qed

lemma add_items_error_text:
  assumes "plain_errors cat" "fst (sp_playlist_add_items pid ids cat) = Inl e"
  shows "\<not> contains duplicate_marker e"
proof (cases "fst (request (PlaylistAddItems pid ids) cat)")
  case None
  with assms(2) have "e = cat_missing cat"
    by (cases "request (PlaylistAddItems pid ids) cat")
       (auto simp: sp_playlist_add_items_def split: option.splits)
  with assms(1) show ?thesis by (simp add: plain_errors_def)
next
  case (Some e')
  with assms(2) have "e = e'"
    by (cases "request (PlaylistAddItems pid ids) cat") (auto simp: sp_playlist_add_items_def)
  with Some request_error_text assms(1) show ?thesis by (auto simp: plain_errors_def)
qed

lemma find_playlist_add_items:
  "find_playlist pid (add_items pid ids ps) =
     map_option (\<lambda>p. p\<lparr>pl_items := pl_items p @ map (\<lambda>i. Entry (Some i)) ids\<rparr>) (find_playlist pid ps)"
  by (induction ps) auto

lemma add_items_passes:
  assumes "fst (sp_playlist_add_items pid ids cat) = Inr r"
  shows "cat_playlists (snd (sp_playlist_add_items pid ids cat)) = add_items pid ids (cat_playlists cat)"
  using assms
  by (cases "request (PlaylistAddItems pid ids) cat")
     (auto simp: sp_playlist_add_items_def split: option.splits)

section \<open>Runs on the examples\<close>

lemmas model_eval = parser_eval example_chart_def example_chart2_def example_track_def example_track2_def
  example_playlist_def example_seen_def example_catalog_def example_fs_def example_app_def
  suffix_to_prefix process_directory_def process_osu_file_def parse_osu_file_def read_file_def is_osu_name_def
  search_track_def sp_search_def request_def truthy_def get_or_create_osu_playlist_def
  sp_current_user_playlists_def create_playlist_def sp_current_user_def sp_user_playlist_create_def
  add_track_to_playlist_def is_track_in_playlist_def get_playlist_tracks_def sp_playlist_tracks_def
  page_at_def sp_next_def sp_playlist_add_items_def record_outcome_def hit_of_def skip_of_def
  msg_added_def msg_already_in_playlist_def msg_add_error_def duplicate_marker_def msg_parse_failed_def msg_not_found_def msg_playlist_failed_def default_description_def default_playlist_name_def
  follow_pages.simps reaches_add_def calm_def grows_by_def add_requests_def listing_raises_def parser_after_def

lemma example_reaches:
  "reaches_add example_fs [u ''songs'', u ''a.osu''] (Some (u ''p2'')) (example_app (example_catalog\<lparr>cat_faults := fs\<rparr>)) =
     (case fs of Some e # r \<Rightarrow> None | _ \<Rightarrow> Some (example_track, u ''p2'', parser_after [Some example_chart],
         example_catalog\<lparr>cat_faults := tl fs, cat_log := [Search (u ''track:Freedom Dive artist:xi'')]\<rparr>))"
  by (simp add: model_eval split: list.splits option.splits)

lemma grows_by_refl: "grows_by self (self\<lparr>parser := ps, spotify := c\<rparr>) [] [] []"
  by (simp add: grows_by_def)

lemma grows_by_trans:
  "grows_by s0 s1 a d k \<Longrightarrow> grows_by s1 s2 a' d' k' \<Longrightarrow> grows_by s0 s2 (a @ a') (d @ d') (k @ k')"
  by (simp add: grows_by_def)

lemma process_osu_file_step:
  "\<exists>a d s. grows_by self (snd (process_osu_file fs f pid chk self)) a d s \<and>
     length a + length d + length s = (if reaches_add fs f pid self = None then 0 else 1) \<and>
     length a = (if fst (fst (process_osu_file fs f pid chk self)) then 1 else 0)"
proof (cases "reaches_add fs f pid self")
  case None
  from process_osu_file_returns_early [OF None, of chk] None show ?thesis
    by (intro exI [of _ "[]"]) simp
next
  case (Some r)
  then obtain t p ps c where r: "reaches_add fs f pid self = Some (t, p, ps, c)"
    by (cases r) auto
  let ?res = "fst (add_track_to_playlist p (track_id t) chk c)"
  let ?self = "self\<lparr>parser := ps, spotify := snd (add_track_to_playlist p (track_id t) chk c)\<rparr>"
  have "grows_by self (record_outcome t f ?res ?self)
          (if fst ?res then [hit_of t f] else [])
          (if \<not> fst ?res \<and> contains duplicate_marker (snd ?res) then [hit_of t f] else [])
          (if \<not> fst ?res \<and> \<not> contains duplicate_marker (snd ?res) then [skip_of t f (snd ?res)] else [])"
    by (simp add: record_outcome_def grows_by_def)
  then show ?thesis
    unfolding process_osu_file_reaches [OF r] r
    by (intro exI [of _ "if fst ?res then [hit_of t f] else []"]
          exI [of _ "if \<not> fst ?res \<and> contains duplicate_marker (snd ?res) then [hit_of t f] else []"]
          exI [of _ "if \<not> fst ?res \<and> \<not> contains duplicate_marker (snd ?res) then [skip_of t f (snd ?res)] else []"])
       simp
qed

lemma process_files_grows:
  "\<exists>a d s. grows_by self (snd (process_files fs pid chk files n self)) a d s \<and>
     fst (process_files fs pid chk files n self) = n + length a \<and>
     length a + length d + length s \<le> length files"
proof (induction files arbitrary: n self)
  case Nil
  show ?case by (intro exI [of _ "[]"]) (simp add: grows_by_def)
next
  case (Cons f files)
  obtain ok msg self' where p: "process_osu_file fs f pid chk self = ((ok, msg), self')"
    by (cases "process_osu_file fs f pid chk self") auto
  from process_osu_file_step [of self fs f pid chk] p obtain a d s where
    1: "grows_by self self' a d s" "length a + length d + length s \<le> 1"
       "length a = (if ok then 1 else 0)"
    by (auto split: if_splits)
  from Cons.IH [of self' "if ok then n + 1 else n"] obtain a' d' s' where
    2: "grows_by self' (snd (process_files fs pid chk files (if ok then n + 1 else n) self')) a' d' s'"
       "fst (process_files fs pid chk files (if ok then n + 1 else n) self') = (if ok then n + 1 else n) + length a'"
       "length a' + length d' + length s' \<le> length files"
    by blast
  have "grows_by self (snd (process_files fs pid chk (f # files) n self)) (a @ a') (d @ d') (s @ s')"
    using grows_by_trans [OF 1(1) 2(1)] p by simp
  moreover have "fst (process_files fs pid chk (f # files) n self) = n + length (a @ a')"
    using 2(2) 1(3) p by simp
  moreover have "length (a @ a') + length (d @ d') + length (s @ s') \<le> length (f # files)"
    using 1(2) 2(3) by simp
  ultimately show ?case by blast
qed

section \<open>The outcome lists\<close>

lemma process_directory_files:
  assumes "lookup fs dir = Some d" "(if recursive then rglob dir d else glob dir d) \<noteq> []"
  shows "process_directory fs dir name chk recursive self =
     process_files fs (fst (batch_playlist name (spotify self))) chk
       (if recursive then rglob dir d else glob dir d) 0
       (self\<lparr>spotify := snd (batch_playlist name (spotify self))\<rparr>)"
  using assms
  by (simp add: process_directory_def batch_playlist_def Let_def split: prod.splits)

lemma process_directory_nothing:
  "lookup fs dir = None \<or>
   (\<exists>d. lookup fs dir = Some d \<and> (if recursive then rglob dir d else glob dir d) = []) \<Longrightarrow>
   process_directory fs dir name chk recursive self = (0, self)"
  by (auto simp: process_directory_def)

lemma process_directory_grows:
  "\<exists>a d s. grows_by self (snd (process_directory fs dir name chk recursive self)) a d s \<and>
     fst (process_directory fs dir name chk recursive self) = length a"
proof (cases "lookup fs dir = None \<or>
   (\<exists>d. lookup fs dir = Some d \<and> (if recursive then rglob dir d else glob dir d) = [])")
  case True
  then show ?thesis
    by (intro exI [of _ "[]"]) (simp add: process_directory_nothing grows_by_def)
next
  case False
  then obtain d where d: "lookup fs dir = Some d"
    "(if recursive then rglob dir d else glob dir d) \<noteq> []" by auto
  let ?self = "self\<lparr>spotify := snd (batch_playlist name (spotify self))\<rparr>"
  from process_files_grows [of ?self fs "fst (batch_playlist name (spotify self))" chk
      "if recursive then rglob dir d else glob dir d" 0]
  show ?thesis
    unfolding process_directory_files [OF d] by (auto simp: grows_by_def)
qed

lemma reaches_add_parse_failed:
  "fst (parse_osu_file (read_file fs f) (parser self)) = None \<Longrightarrow> reaches_add fs f pid self = None"
  by (cases "parse_osu_file (read_file fs f) (parser self)") (simp add: reaches_add_def)

lemma reaches_add_no_match:
  "fst (parse_osu_file (read_file fs f) (parser self)) = Some m \<Longrightarrow>
   fst (search_track (title m) (artist m) (spotify self)) = None \<Longrightarrow>
   reaches_add fs f pid self = None"
  by (cases "parse_osu_file (read_file fs f) (parser self)";
      cases "search_track (title m) (artist m) (spotify self)")
     (simp add: reaches_add_def)

section \<open>Enumerating the charts\<close>

lemma lookup_Dir:
  "lookup (Dir es) (n # q) = (case map_of es n of None \<Rightarrow> None | Some m \<Rightarrow> lookup m q)"
  by simp

lemma lookup_File: "q \<noteq> [] \<Longrightarrow> lookup (File c) q = None"
  by (cases q) simp_all

lemma glob_set: "set (glob p d) = {p @ [n] |n. is_osu_name n \<and> lookup d [n] \<noteq> None}"
proof (cases d)
  case (File c)
  then show ?thesis by simp
next
  case (Dir es)
  have "(\<exists>e \<in> set es. fst e = n) \<longleftrightarrow> map_of es n \<noteq> None" for n
    by (metis map_of_eq_None_iff imageE image_eqI)
  then have "lookup (Dir es) [n] \<noteq> None \<longleftrightarrow> (\<exists>e \<in> set es. fst e = n)" for n
    by (simp split: option.splits)
  with Dir show ?thesis by auto
qed

lemma rglob_set:
  "wf_node d \<Longrightarrow>
   set (rglob p d) = {p @ q |q. q \<noteq> [] \<and> is_osu_name (last q) \<and> lookup d q \<noteq> None}"
proof (induction p d rule: rglob.induct)
  case (1 p c)
  have "\<not> (q \<noteq> [] \<and> is_osu_name (last q) \<and> lookup (File c) q \<noteq> None)" for q
    by (cases q) simp_all
  then show ?case by simp
next
  case (2 p es)
  have dist: "distinct (map fst es)" and wf: "\<And>n x. (n, x) \<in> set es \<Longrightarrow> wf_node x"
    using "2.prems" by (auto simp: list_all_iff)
  have ih: "set (rglob (p @ [n]) x) =
      {(p @ [n]) @ q |q. q \<noteq> [] \<and> is_osu_name (last q) \<and> lookup x q \<noteq> None}"
    if "(n, x) \<in> set es" for n x
    using "2.IH" [OF that refl] wf [OF that] by simp
  have mo: "map_of es n = Some x \<longleftrightarrow> (n, x) \<in> set es" for n x
    using dist by simp
  show ?case
  proof (intro set_eqI iffI)
    fix w
    assume "w \<in> set (rglob p (Dir es))"
    then consider (direct) n x where "(n, x) \<in> set es" "is_osu_name n" "w = p @ [n]"
      | (deep) n x where "(n, x) \<in> set es" "w \<in> set (rglob (p @ [n]) x)"
      by auto
    then show "w \<in> {p @ q |q. q \<noteq> [] \<and> is_osu_name (last q) \<and> lookup (Dir es) q \<noteq> None}"
    proof cases
      case direct
      then have "lookup (Dir es) [n] \<noteq> None" using mo [of n x] by simp
      with direct have "w = p @ [n] \<and> [n] \<noteq> [] \<and> is_osu_name (last [n]) \<and> lookup (Dir es) [n] \<noteq> None"
        by simp
      then show ?thesis by blast
    next
      case deep
      with ih obtain q where q: "w = (p @ [n]) @ q" "q \<noteq> []" "is_osu_name (last q)" "lookup x q \<noteq> None"
        by blast
      then have "lookup (Dir es) (n # q) \<noteq> None" using mo [of n x] deep(1) by simp
      moreover have "w = p @ (n # q)" "last (n # q) = last q" using q by simp_all
      ultimately have "w = p @ (n # q) \<and> n # q \<noteq> [] \<and> is_osu_name (last (n # q)) \<and>
          lookup (Dir es) (n # q) \<noteq> None"
        using q(3) by simp
      then show ?thesis by blast
    qed
  next
    fix w
    assume "w \<in> {p @ q |q. q \<noteq> [] \<and> is_osu_name (last q) \<and> lookup (Dir es) q \<noteq> None}"
    then obtain q where q: "w = p @ q" "q \<noteq> []" "is_osu_name (last q)" "lookup (Dir es) q \<noteq> None"
      by blast
    then obtain n q' where nq: "q = n # q'" by (cases q) auto
    with q(4) obtain x where x: "map_of es n = Some x" "lookup x q' \<noteq> None"
      by (auto split: option.splits)
    then have e: "(n, x) \<in> set es" using mo by simp
    show "w \<in> set (rglob p (Dir es))"
    proof (cases "q' = []")
      case True
      with q nq have "w = p @ [n]" "is_osu_name n" by simp_all
      with e show ?thesis by force
    next
      case False
      with q nq x have "w \<in> set (rglob (p @ [n]) x)" using ih [OF e] by auto
      with e show ?thesis by auto
    qed
  qed
qed

section \<open>The claims\<close>

text \<open>
  Claim C1, as the code has it. A file appends at most one entry over the three lists,
  and the lists only grow: exactly one entry when \<open>process_osu_file\<close> reaches
  \<open>add_track_to_playlist\<close>, none when it returns before that. A file that fails parsing,
  and a file for which the search returns nothing, are of the second kind: their outcome
  is the returned pair only. Over a whole batch the lists only grow as well.
\<close>

theorem outcome_lists:
  "(\<exists>a d s. grows_by self (snd (process_osu_file fs f pid chk self)) a d s \<and>
      length a + length d + length s = (if reaches_add fs f pid self = None then 0 else 1)) \<and>
   (fst (parse_osu_file (read_file fs f) (parser self)) = None \<longrightarrow>
      reaches_add fs f pid self = None) \<and>
   (fst (parse_osu_file (read_file fs f) (parser self)) = Some m \<and>
    fst (search_track (title m) (artist m) (spotify self)) = None \<longrightarrow>
      reaches_add fs f pid self = None) \<and>
   (\<exists>a d s. grows_by self (snd (process_directory fs dir name chk recursive self)) a d s)"
  using process_osu_file_step [of self fs f pid chk]
    process_directory_grows [of self fs dir name chk recursive]
    reaches_add_parse_failed [of fs f self pid] reaches_add_no_match [of fs f self m pid]
  by blast

theorem outcome_lists_witness:
  "fst (parse_osu_file (read_file example_fs [u ''songs'', u ''b.osu'']) None) = None \<and>
   reaches_add example_fs [u ''songs'', u ''b.osu''] None (example_app example_catalog) = None \<and>
   reaches_add example_fs [u ''songs'', u ''a.osu''] (Some (u ''p1'')) (example_app example_catalog) \<noteq> None \<and>
   (\<exists>a d s. grows_by (example_app example_catalog)
      (snd (process_osu_file example_fs [u ''songs'', u ''b.osu''] None True (example_app example_catalog))) a d s \<and>
      length a + length d + length s = 0) \<and>
   (\<exists>a d s. grows_by (example_app example_catalog)
      (snd (process_osu_file example_fs [u ''songs'', u ''a.osu''] (Some (u ''p1'')) True (example_app example_catalog))) a d s \<and>
      length a + length d + length s = 1)"
proof -
  have p: "fst (parse_osu_file (read_file example_fs [u ''songs'', u ''b.osu'']) (parser (example_app example_catalog))) = None"
    by (simp add: model_eval)
  then have p': "fst (parse_osu_file (read_file example_fs [u ''songs'', u ''b.osu'']) None) = None"
    by (simp add: example_app_def)
  have r: "reaches_add example_fs [u ''songs'', u ''a.osu''] (Some (u ''p1'')) (example_app example_catalog) \<noteq> None"
    by (simp add: model_eval)
  from p outcome_lists [of "example_app example_catalog" example_fs "[u ''songs'', u ''b.osu'']" None True]
  have 1: "reaches_add example_fs [u ''songs'', u ''b.osu''] None (example_app example_catalog) = None"
    by blast
  with outcome_lists [of "example_app example_catalog" example_fs "[u ''songs'', u ''b.osu'']" None True]
  have 2: "\<exists>a d s. grows_by (example_app example_catalog)
      (snd (process_osu_file example_fs [u ''songs'', u ''b.osu''] None True (example_app example_catalog))) a d s \<and>
      length a + length d + length s = 0"
    by simp
  from r outcome_lists [of "example_app example_catalog" example_fs "[u ''songs'', u ''a.osu'']" "Some (u ''p1'')" True]
  have 3: "\<exists>a d s. grows_by (example_app example_catalog)
      (snd (process_osu_file example_fs [u ''songs'', u ''a.osu''] (Some (u ''p1'')) True (example_app example_catalog))) a d s \<and>
      length a + length d + length s = 1"
    by (simp del: not_None_eq)
  from p' 1 r 2 3 show ?thesis by blast
qed

text \<open>
  Claim C1 as stated fails on the scenario of three charts in a directory, one without a
  metadata section and two matching new tracks: the batch returns 2 with two entries
  added, and the skipped list stays empty.
\<close>

theorem unparsed_file_in_no_list_counterexample:
  "glob [u ''songs''] (Dir [(u ''a.osu'', File (Some example_chart)),
                             (u ''b.osu'', File (Some (u ''osu file format v14''))),
                             (u ''c.osu'', File (Some example_chart2)),
                             (u ''readme.txt'', File (Some (u ''hello''))),
                             (u ''more'', Dir [(u ''d.osu'', File (Some example_chart))])])
     = [[u ''songs'', u ''a.osu''], [u ''songs'', u ''b.osu''], [u ''songs'', u ''c.osu'']] \<and>
   extract_metadata (u ''osu file format v14'') = None \<and>
   fst (process_directory example_fs [u ''songs''] (Some (u ''osu'')) True False (example_app example_catalog)) = 2 \<and>
   length (added_tracks (snd (process_directory example_fs [u ''songs''] (Some (u ''osu'')) True False
     (example_app example_catalog)))) = 2 \<and>
   duplicate_tracks (snd (process_directory example_fs [u ''songs''] (Some (u ''osu'')) True False
     (example_app example_catalog))) = [] \<and>
   skipped_tracks (snd (process_directory example_fs [u ''songs''] (Some (u ''osu'')) True False
     (example_app example_catalog))) = []"
  by (simp add: model_eval)

text \<open>
  Claim C2. \<open>is_track_in_playlist\<close> answers true exactly for the ids that
  \<open>get_playlist_tracks\<close> returns. When no request fails, \<open>get_playlist_tracks\<close>
  returns, in order, the ids of all the entries of the playlist whose track is there
  with a non-empty id: whatever the page size, so over any number of pages, and with no
  placeholder for a removed track.
\<close>

theorem membership_agrees_with_listing:
  "(fst (is_track_in_playlist pid tid cat) \<longleftrightarrow> tid \<in> set (fst (get_playlist_tracks pid cat))) \<and>
   (calm cat \<and> find_playlist pid (cat_playlists cat) = Some p \<longrightarrow>
      fst (get_playlist_tracks pid cat) = [i. Entry (Some i) \<leftarrow> pl_items p, i \<noteq> []])"
  using get_playlist_tracks_calm [of cat pid p]
  by (simp add: is_track_in_playlist_eq item_ids_comprehension)

theorem membership_agrees_with_listing_witness:
  "calm example_catalog \<and>
   find_playlist (u ''p1'') (cat_playlists example_catalog) = Some example_playlist \<and>
   Suc (cat_page example_catalog) < length (pl_items example_playlist) \<and>
   fst (get_playlist_tracks (u ''p1'') example_catalog) = [u ''a'', u ''b'', u ''c''] \<and>
   fst (is_track_in_playlist (u ''p1'') (u ''c'') example_catalog) \<and>
   \<not> fst (is_track_in_playlist (u ''p1'') (u ''t1'') example_catalog)"
proof -
  have h: "calm example_catalog \<and>
      find_playlist (u ''p1'') (cat_playlists example_catalog) = Some example_playlist"
    by (simp add: calm_def example_catalog_def example_playlist_def u_def)
  have "[i. Entry (Some i) \<leftarrow> pl_items example_playlist, i \<noteq> []] = [u ''a'', u ''b'', u ''c'']"
    by (simp add: example_playlist_def u_def)
  then have l: "fst (get_playlist_tracks (u ''p1'') example_catalog) = [u ''a'', u ''b'', u ''c'']"
    using h membership_agrees_with_listing [of "u ''p1''" "u ''c''" example_catalog example_playlist]
    by simp
  then have "fst (is_track_in_playlist (u ''p1'') (u ''c'') example_catalog)"
    "\<not> fst (is_track_in_playlist (u ''p1'') (u ''t1'') example_catalog)"
    using membership_agrees_with_listing [of "u ''p1''" "u ''c''" example_catalog example_playlist]
      membership_agrees_with_listing [of "u ''p1''" "u ''t1''" example_catalog example_playlist]
    by (simp_all add: u_def)
  with h l show ?thesis by (simp add: example_catalog_def example_playlist_def)
qed

text \<open>
  Claim C3, as the code has it. Take a content whose first metadata header starts a line
  and is followed, later on, by the start of another section or by the newline that ends
  the text. The parser returns a record. Each of title, artist, version and creator is
  trimmed, is empty when its label does not occur in the section, and, when the first
  occurrence of its label starts a line of the section, is the text after that label up
  to the end of the line, without the white space around it. The audio file name is the
  same for its label in the general section, and empty when the content has no general
  header. On the chart of the scenario the record is the one the scenario gives.
  Nothing keeps the label out of a value, and a section closed by the end of the text
  with no newline is not in the domain.
\<close>

theorem extract_metadata_fields:
  "(is_section (u ''[Metadata]'') pre md post content \<and> at_line_start pre \<longrightarrow>
      (\<exists>r. extract_metadata content = Some r \<and>
           value_after (u ''Title:'') (title r) md \<and> value_after (u ''Artist:'') (artist r) md \<and>
           value_after (u ''Version:'') (version r) md \<and> value_after (u ''Creator:'') (creator r) md \<and>
           trimmed (audio_filename r) \<and>
           (\<not> contains (u ''[General]'') content \<longrightarrow> audio_filename r = []) \<and>
           (\<forall>gpre g gpost. is_section (u ''[General]'') gpre g gpost content \<and> at_line_start gpre \<longrightarrow>
              value_after (u ''AudioFilename:'') (audio_filename r) g))) \<and>
   extract_metadata example_chart =
     Some \<lparr>title = u ''Freedom Dive'', artist = u ''xi'', version = u ''FOUR DIMENSIONS'',
           creator = u ''Nakagawa-Kanon'', audio_filename = []\<rparr>"
proof (intro conjI impI)
  assume "is_section (u ''[Metadata]'') pre md post content \<and> at_line_start pre"
  then have "is_section (u ''[Metadata]'') pre md post content" by simp
  then have md: "search_section (u ''[Metadata]'') content = Some md"
    by (rule search_section_is_section)
  define r where "r =
    \<lparr>title = field_value (u ''Title:'') md, artist = field_value (u ''Artist:'') md,
     version = field_value (u ''Version:'') md, creator = field_value (u ''Creator:'') md,
     audio_filename = audio_of content\<rparr>"
  have r: "extract_metadata content = Some r"
    using md by (simp add: extract_metadata_def r_def)
  have f: "value_after (u ''Title:'') (title r) md" "value_after (u ''Artist:'') (artist r) md"
    "value_after (u ''Version:'') (version r) md" "value_after (u ''Creator:'') (creator r) md"
    "trimmed (audio_filename r)"
    by (simp_all add: r_def value_after_field_value nonempty_labels trimmed_audio_of)
  have n: "\<not> contains (u ''[General]'') content \<longrightarrow> audio_filename r = []"
    by (simp add: r_def audio_of_field_value search_section_None)
  have g: "value_after (u ''AudioFilename:'') (audio_filename r) g"
    if "is_section (u ''[General]'') gpre g gpost content" for gpre g gpost
    using search_section_is_section [OF that]
    by (simp add: r_def audio_of_field_value value_after_field_value nonempty_labels)
  from r f n g show "\<exists>r. extract_metadata content = Some r \<and>
           value_after (u ''Title:'') (title r) md \<and> value_after (u ''Artist:'') (artist r) md \<and>
           value_after (u ''Version:'') (version r) md \<and> value_after (u ''Creator:'') (creator r) md \<and>
           trimmed (audio_filename r) \<and>
           (\<not> contains (u ''[General]'') content \<longrightarrow> audio_filename r = []) \<and>
           (\<forall>gpre g gpost. is_section (u ''[General]'') gpre g gpost content \<and> at_line_start gpre \<longrightarrow>
              value_after (u ''AudioFilename:'') (audio_filename r) g)"
    by blast
next
  show "extract_metadata example_chart =
     Some \<lparr>title = u ''Freedom Dive'', artist = u ''xi'', version = u ''FOUR DIMENSIONS'',
           creator = u ''Nakagawa-Kanon'', audio_filename = []\<rparr>"
    by (simp add: example_chart_def parser_eval)
qed

theorem extract_metadata_fields_witness:
  "is_section (u ''[Metadata]'') (u ''[General]\<newline>AudioFilename: audio.mp3\<newline>'')
     (u ''\<newline>Title:Blue Zenith\<newline>Artist:xi'') (u ''\<newline>[Events]'') example_chart2 \<and>
   at_line_start (u ''[General]\<newline>AudioFilename: audio.mp3\<newline>'') \<and>
   is_section (u ''[General]'') [] (u ''\<newline>AudioFilename: audio.mp3'')
     (u ''\<newline>[Metadata]\<newline>Title:Blue Zenith\<newline>Artist:xi\<newline>[Events]'') example_chart2 \<and>
   extract_metadata example_chart2 =
     Some \<lparr>title = u ''Blue Zenith'', artist = u ''xi'', version = [], creator = [],
           audio_filename = u ''audio.mp3''\<rparr> \<and>
   (\<exists>r. extract_metadata example_chart2 = Some r \<and>
      value_after (u ''Title:'') (title r) (u ''\<newline>Title:Blue Zenith\<newline>Artist:xi'') \<and>
      value_after (u ''Artist:'') (artist r) (u ''\<newline>Title:Blue Zenith\<newline>Artist:xi'') \<and>
      value_after (u ''AudioFilename:'') (audio_filename r) (u ''\<newline>AudioFilename: audio.mp3''))"
proof -
  let ?pre = "u ''[General]\<newline>AudioFilename: audio.mp3\<newline>''"
  let ?md = "u ''\<newline>Title:Blue Zenith\<newline>Artist:xi''"
  let ?g = "u ''\<newline>AudioFilename: audio.mp3''"
  let ?gpost = "u ''\<newline>[Metadata]\<newline>Title:Blue Zenith\<newline>Artist:xi\<newline>[Events]''"
  have 1: "is_section (u ''[Metadata]'') ?pre ?md (u ''\<newline>[Events]'') example_chart2"
    by (simp add: section_eval example_chart2_def)
  have 2: "at_line_start ?pre" by (simp add: section_eval)
  have 3: "is_section (u ''[General]'') [] ?g ?gpost example_chart2"
    by (simp add: section_eval example_chart2_def)
  have 4: "at_line_start []" by (simp add: at_line_start_def)
  have 5: "extract_metadata example_chart2 =
     Some \<lparr>title = u ''Blue Zenith'', artist = u ''xi'', version = [], creator = [],
           audio_filename = u ''audio.mp3''\<rparr>"
    by (simp add: example_chart2_def parser_eval)
  from extract_metadata_fields [of ?pre ?md "u ''\<newline>[Events]''" example_chart2, THEN conjunct1] 1 2
  obtain r where r: "extract_metadata example_chart2 = Some r"
    "value_after (u ''Title:'') (title r) ?md" "value_after (u ''Artist:'') (artist r) ?md"
    "\<forall>gpre g gpost. is_section (u ''[General]'') gpre g gpost example_chart2 \<and> at_line_start gpre \<longrightarrow>
              value_after (u ''AudioFilename:'') (audio_filename r) g"
    by blast
  from r(4) 3 4 have "value_after (u ''AudioFilename:'') (audio_filename r) ?g" by blast
  with r(1-3) have 6: "\<exists>r. extract_metadata example_chart2 = Some r \<and>
      value_after (u ''Title:'') (title r) ?md \<and> value_after (u ''Artist:'') (artist r) ?md \<and>
      value_after (u ''AudioFilename:'') (audio_filename r) ?g"
    by blast
  from 1 2 3 5 6 show ?thesis by (intro conjI)
qed

text \<open>
  Claim C3 as stated fails. From the line \<^verbatim>\<open>Title:Title:x\<close> the title is
  \<^verbatim>\<open>Title:x\<close>, which contains the label. A metadata section closed by the end of the
  text, with no newline after its last line, gives the empty dictionary and no record.
  A label inside a line is taken for the field's: with \<^verbatim>\<open>Title:A Artist:B\<close> on
  one line and \<^verbatim>\<open>Artist:C\<close> on the next, the artist is \<^verbatim>\<open>B\<close>.
  And a header inside a line is taken for the section's: with \<^verbatim>\<open>Tags:[Metadata]\<close> on
  the line before a complete metadata section whose title is \<^verbatim>\<open>x\<close>, the title is
  empty.
\<close>

theorem label_inside_value_counterexample:
  "map_option title (extract_metadata (u ''[Metadata]\<newline>Title:Title:x\<newline>'')) = Some (u ''Title:x'') \<and>
   contains (u ''Title:'') (u ''Title:x'') \<and>
   extract_metadata (u ''[Metadata]\<newline>Title:x'') = None \<and>
   map_option artist (extract_metadata (u ''[Metadata]\<newline>Title:A Artist:B\<newline>Artist:C\<newline>'')) = Some (u ''B'') \<and>
   map_option title (extract_metadata (u ''Tags:[Metadata]\<newline>[Metadata]\<newline>Title:x\<newline>'')) = Some []"
  by (simp add: parser_eval)

text \<open>
  Claim C4, as the code has it. Take a content that lacks a metadata section: the header
  starts no line, and no occurrence of it inside a line is followed by the start of
  another section or by the newline that ends the text. The parser returns the empty
  dictionary; \<open>process_osu_file\<close> returns the pair of \<open>False\<close> and the parse-failure
  message at once, raising nothing, recording no entry in any list and leaving the run
  and the catalog as they were; and the loop of a batch then processes the next file,
  counts it, and goes on from the state that file leaves.
\<close>

theorem missing_metadata_is_skipped:
  assumes "lacks_section (u ''[Metadata]'') content"
    and "read_file fs osu_file = Some content"
  shows "extract_metadata content = None \<and>
     process_osu_file fs osu_file playlist_id chk self = ((False, msg_parse_failed), self) \<and>
     process_files fs playlist_id chk (osu_file # next_file # rest) n self =
       process_files fs playlist_id chk rest
         (if fst (fst (process_osu_file fs next_file playlist_id chk self)) then n + 1 else n)
         (snd (process_osu_file fs next_file playlist_id chk self))"
proof -
  have "search_section (u ''[Metadata]'') content = None"
  proof (cases "search_section (u ''[Metadata]'') content")
    case None
    then show ?thesis .
  next
    case (Some b)
    then have "section_of (u ''[Metadata]'') b content" by (rule search_section_Some)
    with assms(1) show ?thesis by (simp add: lacks_section_def)
  qed
  then have e: "extract_metadata content = None" by (simp add: extract_metadata_def)
  then have p: "process_osu_file fs osu_file playlist_id chk self = ((False, msg_parse_failed), self)"
    using assms(2) by (simp add: process_osu_file_def parse_osu_file_def)
  have "process_files fs playlist_id chk (osu_file # next_file # rest) n self =
       process_files fs playlist_id chk rest
         (if fst (fst (process_osu_file fs next_file playlist_id chk self)) then n + 1 else n)
         (snd (process_osu_file fs next_file playlist_id chk self))"
    using p by (simp add: split_beta)
  with e p show ?thesis by blast
qed

theorem missing_metadata_is_skipped_witness:
  "lacks_section (u ''[Metadata]'') (u ''Tags:[Metadata] x\<newline>Title:y'') \<and>
   contains (u ''[Metadata]'') (u ''Tags:[Metadata] x\<newline>Title:y'') \<and>
   read_file example_tags_fs [u ''t.osu''] = Some (u ''Tags:[Metadata] x\<newline>Title:y'') \<and>
   process_osu_file example_tags_fs [u ''t.osu''] (Some (u ''p1'')) True (example_app example_catalog)
     = ((False, msg_parse_failed), example_app example_catalog) \<and>
   fst (process_files example_tags_fs (Some (u ''p1'')) True [[u ''t.osu''], [u ''a.osu'']] 0
          (example_app example_catalog)) = 1 \<and>
   map hit_file (added_tracks (snd (process_files example_tags_fs (Some (u ''p1'')) True
          [[u ''t.osu''], [u ''a.osu'']] 0 (example_app example_catalog)))) = [[u ''a.osu'']]"
proof -
  let ?app = "example_app example_catalog"
  let ?c = "u ''Tags:[Metadata] x\<newline>Title:y''"
  have 0: "\<forall>pre. prefix (pre @ u ''[Metadata]'') ?c \<longrightarrow> \<not> at_line_start pre"
    unfolding header_positions by (simp add: all_less_list_all at_line_start_def u_def)
  have "search_section (u ''[Metadata]'') ?c = None" by (simp add: u_def section_end_def)
  then have 1: "\<forall>body. \<not> section_of (u ''[Metadata]'') body ?c" by (rule no_section_of)
  from 0 1 have l: "lacks_section (u ''[Metadata]'') ?c" by (simp add: lacks_section_def)
  have c: "contains (u ''[Metadata]'') ?c" by (simp add: u_def)
  have 2: "read_file example_tags_fs [u ''t.osu''] = Some ?c"
    by (simp add: read_file_def example_tags_fs_def u_def)
  note t = missing_metadata_is_skipped [OF l 2, of "Some (u ''p1'')" True ?app "[u ''a.osu'']" "[]" 0]
  have a: "fst (fst (process_osu_file example_tags_fs [u ''a.osu''] (Some (u ''p1'')) True ?app))"
    "map hit_file (added_tracks (snd (process_osu_file example_tags_fs [u ''a.osu''] (Some (u ''p1'')) True ?app)))
       = [[u ''a.osu'']]"
    by (simp_all add: model_eval example_tags_fs_def)
  from t have "process_files example_tags_fs (Some (u ''p1'')) True [[u ''t.osu''], [u ''a.osu'']] 0 ?app =
        process_files example_tags_fs (Some (u ''p1'')) True []
         (if fst (fst (process_osu_file example_tags_fs [u ''a.osu''] (Some (u ''p1'')) True ?app))
          then 0 + 1 else 0)
         (snd (process_osu_file example_tags_fs [u ''a.osu''] (Some (u ''p1'')) True ?app))"
    by blast
  with a(1) have "process_files example_tags_fs (Some (u ''p1'')) True [[u ''t.osu''], [u ''a.osu'']] 0 ?app =
        (1, snd (process_osu_file example_tags_fs [u ''a.osu''] (Some (u ''p1'')) True ?app))"
    by (simp del: process_files.simps(2))
  with a(2) have 3: "fst (process_files example_tags_fs (Some (u ''p1'')) True [[u ''t.osu''], [u ''a.osu'']] 0 ?app) = 1"
    "map hit_file (added_tracks (snd (process_files example_tags_fs (Some (u ''p1'')) True
          [[u ''t.osu''], [u ''a.osu'']] 0 ?app))) = [[u ''a.osu'']]"
    by (simp_all del: process_files.simps(2))
  from t have 4: "process_osu_file example_tags_fs [u ''t.osu''] (Some (u ''p1'')) True ?app
     = ((False, msg_parse_failed), ?app)" by blast
  from l c 2 4 3 show ?thesis by (intro conjI)
qed

text \<open>
  Claim C4 as stated fails. A content with no metadata section, in which the header
  occurs inside a line of tags and another section follows, is parsed into a record with
  empty fields rather than rejected. And for a chart that is rejected, the call returns
  the parse-failure message and the skipped list stays empty: no Skipped outcome is
  recorded.
\<close>

theorem parse_failure_not_recorded_counterexample:
  "extract_metadata (u ''Tags:[Metadata]\<newline>[Events]\<newline>'') =
     Some \<lparr>title = [], artist = [], version = [], creator = [], audio_filename = []\<rparr> \<and>
   read_file example_fs [u ''songs'', u ''b.osu''] = Some (u ''osu file format v14'') \<and>
   extract_metadata (u ''osu file format v14'') = None \<and>
   fst (process_osu_file example_fs [u ''songs'', u ''b.osu''] None True (example_app example_catalog))
     = (False, msg_parse_failed) \<and>
   skipped_tracks (snd (process_osu_file example_fs [u ''songs'', u ''b.osu''] None True
     (example_app example_catalog))) = []"
  by (simp add: model_eval)

text \<open>
  Claim C5, as the code has it. When \<open>process_osu_file\<close> reaches the add step with the
  duplicate check on, the id of the matched track is among the ids the target playlist
  holds, and fetching the entries of the playlist does not raise, it returns the
  already-in-playlist message, appends the entry to \<open>duplicate_tracks\<close> only, and makes
  no request that adds to a playlist: the playlists are as they were.
\<close>

theorem duplicate_is_not_added:
  assumes "reaches_add fs osu_file playlist_id self = Some (t, pid, ps, cat2)"
    and "find_playlist pid (cat_playlists cat2) = Some p"
    and "track_id t \<in> set (playlist_ids p)"
    and "\<not> listing_raises pid cat2"
  shows "fst (process_osu_file fs osu_file playlist_id True self) = (False, msg_already_in_playlist) \<and>
         grows_by self (snd (process_osu_file fs osu_file playlist_id True self)) [] [hit_of t osu_file] [] \<and>
         add_requests (spotify (snd (process_osu_file fs osu_file playlist_id True self))) =
           add_requests (spotify self) \<and>
         cat_playlists (spotify (snd (process_osu_file fs osu_file playlist_id True self))) =
           cat_playlists cat2"
proof -
  have m: "track_id t \<in> set (fst (get_playlist_tracks pid cat2))"
    using assms(3) get_playlist_tracks_listed [OF assms(2,4)] by simp
  show ?thesis
    using reaches_add_frame [OF assms(1)]
    by (simp add: process_osu_file_reaches [OF assms(1)] add_track_member [OF m]
        record_outcome_def marker_in_already grows_by_def get_playlist_tracks_frame)
qed

theorem duplicate_is_not_added_witness:
  "reaches_add example_fs [u ''songs'', u ''a.osu''] (Some (u ''p2''))
     (example_app (example_catalog\<lparr>cat_faults := [None, None, Some (u ''timeout'')]\<rparr>)) =
     Some (example_track, u ''p2'', parser_after [Some example_chart],
       example_catalog\<lparr>cat_faults := [None, Some (u ''timeout'')],
         cat_log := [Search (u ''track:Freedom Dive artist:xi'')]\<rparr>) \<and>
   find_playlist (u ''p2'') (cat_playlists example_catalog) = Some example_seen \<and>
   track_id example_track \<in> set (playlist_ids example_seen) \<and>
   \<not> listing_raises (u ''p2'')
     (example_catalog\<lparr>cat_faults := [None, Some (u ''timeout'')],
        cat_log := [Search (u ''track:Freedom Dive artist:xi'')]\<rparr>) \<and>
   fst (process_osu_file example_fs [u ''songs'', u ''a.osu''] (Some (u ''p2'')) True
     (example_app (example_catalog\<lparr>cat_faults := [None, None, Some (u ''timeout'')]\<rparr>)))
     = (False, msg_already_in_playlist) \<and>
   grows_by (example_app (example_catalog\<lparr>cat_faults := [None, None, Some (u ''timeout'')]\<rparr>))
     (snd (process_osu_file example_fs [u ''songs'', u ''a.osu''] (Some (u ''p2'')) True
       (example_app (example_catalog\<lparr>cat_faults := [None, None, Some (u ''timeout'')]\<rparr>))))
     [] [hit_of example_track [u ''songs'', u ''a.osu'']] [] \<and>
   add_requests (spotify (snd (process_osu_file example_fs [u ''songs'', u ''a.osu''] (Some (u ''p2'')) True
     (example_app (example_catalog\<lparr>cat_faults := [None, None, Some (u ''timeout'')]\<rparr>))))) = []"
proof -
  let ?cat2 = "example_catalog\<lparr>cat_faults := [None, Some (u ''timeout'')],
         cat_log := [Search (u ''track:Freedom Dive artist:xi'')]\<rparr>"
  let ?app = "example_app (example_catalog\<lparr>cat_faults := [None, None, Some (u ''timeout'')]\<rparr>)"
  have r: "reaches_add example_fs [u ''songs'', u ''a.osu''] (Some (u ''p2'')) ?app
      = Some (example_track, u ''p2'', parser_after [Some example_chart], ?cat2)"
    using example_reaches [of "[None, None, Some (u ''timeout'')]"] by simp
  have f: "find_playlist (u ''p2'') (cat_playlists example_catalog) = Some example_seen"
    by (simp add: example_catalog_def example_playlist_def example_seen_def u_def)
  then have f2: "find_playlist (u ''p2'') (cat_playlists ?cat2) = Some example_seen" by simp
  have m: "track_id example_track \<in> set (playlist_ids example_seen)"
    by (simp add: playlist_ids_def example_seen_def example_track_def u_def)
  have l: "\<not> listing_raises (u ''p2'') ?cat2"
    by (simp add: model_eval)
  have a: "add_requests (spotify ?app) = []"
    by (simp add: add_requests_def example_app_def example_catalog_def)
  from duplicate_is_not_added [OF r f2 m l] a
  have "fst (process_osu_file example_fs [u ''songs'', u ''a.osu''] (Some (u ''p2'')) True ?app)
     = (False, msg_already_in_playlist)"
    "grows_by ?app (snd (process_osu_file example_fs [u ''songs'', u ''a.osu''] (Some (u ''p2'')) True ?app))
     [] [hit_of example_track [u ''songs'', u ''a.osu'']] []"
    "add_requests (spotify (snd (process_osu_file example_fs [u ''songs'', u ''a.osu''] (Some (u ''p2'')) True ?app))) = []"
    by simp_all
  with r f m l show ?thesis by (intro conjI)
qed

text \<open>
  Claim C5 as stated fails: the playlist holds the track, the request that lists its
  entries raises, and the track is added a second time with outcome Added.
\<close>

theorem member_added_again_counterexample:
  "find_playlist (u ''p2'') (cat_playlists example_catalog) = Some example_seen \<and>
   track_id example_track \<in> set (playlist_ids example_seen) \<and>
   reaches_add example_fs [u ''songs'', u ''a.osu''] (Some (u ''p2''))
     (example_app (example_catalog\<lparr>cat_faults := [None, Some (u ''timeout'')]\<rparr>)) =
     Some (example_track, u ''p2'', parser_after [Some example_chart],
       example_catalog\<lparr>cat_faults := [Some (u ''timeout'')],
         cat_log := [Search (u ''track:Freedom Dive artist:xi'')]\<rparr>) \<and>
   fst (process_osu_file example_fs [u ''songs'', u ''a.osu''] (Some (u ''p2'')) True
     (example_app (example_catalog\<lparr>cat_faults := [None, Some (u ''timeout'')]\<rparr>))) = (True, msg_added) \<and>
   duplicate_tracks (snd (process_osu_file example_fs [u ''songs'', u ''a.osu''] (Some (u ''p2'')) True
     (example_app (example_catalog\<lparr>cat_faults := [None, Some (u ''timeout'')]\<rparr>)))) = [] \<and>
   add_requests (spotify (snd (process_osu_file example_fs [u ''songs'', u ''a.osu''] (Some (u ''p2'')) True
     (example_app (example_catalog\<lparr>cat_faults := [None, Some (u ''timeout'')]\<rparr>))))) =
     [PlaylistAddItems (u ''p2'') [u ''t1'']] \<and>
   map pl_items (cat_playlists (spotify (snd (process_osu_file example_fs [u ''songs'', u ''a.osu''] (Some (u ''p2'')) True
     (example_app (example_catalog\<lparr>cat_faults := [None, Some (u ''timeout'')]\<rparr>))))))
     = [pl_items example_playlist, [Entry (Some (u ''t1'')), Entry (Some (u ''t1''))]]"
  using example_reaches [of "[None, Some (u ''timeout'')]"]
  by (simp add: model_eval playlist_ids_def)

text \<open>
  Claim C6. With no request failing: when a playlist of that name is listed,
  \<open>get_or_create_osu_playlist\<close> returns the id of the first one whose name equals the
  given one, code point by code point, and creates nothing; when none is, it creates one
  playlist with that name and the fixed description, and returns its id. The source
  reads the items of one reply to the listing request; that reply is taken to hold all
  of the account's playlists.
\<close>

theorem get_or_create_by_name:
  assumes "calm cat"
  shows "(cat_playlists cat = ps @ p # qs \<and> pl_name p = name \<and> (\<forall>q \<in> set ps. pl_name q \<noteq> name) \<longrightarrow>
            fst (get_or_create_osu_playlist name cat) = Some (pl_id p) \<and>
            cat_playlists (snd (get_or_create_osu_playlist name cat)) = cat_playlists cat) \<and>
         ((\<forall>q \<in> set (cat_playlists cat). pl_name q \<noteq> name) \<longrightarrow>
            (\<exists>p'. fst (get_or_create_osu_playlist name cat) = Some (pl_id p') \<and>
                  cat_playlists (snd (get_or_create_osu_playlist name cat)) = cat_playlists cat @ [p'] \<and>
                  pl_name p' = name \<and> pl_description p' = default_description \<and> pl_items p' = []))"
proof (intro conjI impI)
  assume a: "cat_playlists cat = ps @ p # qs \<and> pl_name p = name \<and> (\<forall>q \<in> set ps. pl_name q \<noteq> name)"
  then have "find (\<lambda>p. pl_name p = name) (cat_playlists cat) = Some p"
    by (intro find_first [of _ ps p qs]) simp_all
  from get_or_create_existing [OF assms this]
  show "fst (get_or_create_osu_playlist name cat) = Some (pl_id p)"
    "cat_playlists (snd (get_or_create_osu_playlist name cat)) = cat_playlists cat"
    by simp_all
next
  assume "\<forall>q \<in> set (cat_playlists cat). pl_name q \<noteq> name"
  then have "find (\<lambda>p. pl_name p = name) (cat_playlists cat) = None"
    by (simp add: find_None_iff)
  from get_or_create_new [OF assms this]
  show "\<exists>p'. fst (get_or_create_osu_playlist name cat) = Some (pl_id p') \<and>
                  cat_playlists (snd (get_or_create_osu_playlist name cat)) = cat_playlists cat @ [p'] \<and>
                  pl_name p' = name \<and> pl_description p' = default_description \<and> pl_items p' = []"
    by (intro exI [of _ "\<lparr>pl_id = cat_mint cat (length (cat_playlists cat)), pl_name = name,
                  pl_description = default_description, pl_public = True, pl_items = []\<rparr>"]) simp
qed

theorem get_or_create_by_name_witness:
  "calm example_catalog \<and>
   cat_playlists example_catalog = [example_playlist] @ example_seen # [] \<and>
   pl_name example_playlist \<noteq> u ''seen'' \<and>
   fst (get_or_create_osu_playlist (u ''seen'') example_catalog) = Some (u ''p2'') \<and>
   cat_playlists (snd (get_or_create_osu_playlist (u ''seen'') example_catalog)) =
     cat_playlists example_catalog \<and>
   fst (get_or_create_osu_playlist (u ''Seen'') example_catalog) = Some (u ''new'') \<and>
   map pl_name (cat_playlists (snd (get_or_create_osu_playlist (u ''Seen'') example_catalog))) =
     [u ''osu'', u ''seen'', u ''Seen'']"
proof -
  have c: "calm example_catalog" by (simp add: calm_def example_catalog_def)
  have l: "cat_playlists example_catalog = [example_playlist] @ example_seen # []"
    by (simp add: example_catalog_def)
  have n: "pl_name example_playlist \<noteq> u ''seen''" "pl_name example_seen = u ''seen''"
    "pl_id example_seen = u ''p2''"
    by (simp_all add: example_playlist_def example_seen_def u_def)
  from get_or_create_by_name [OF c, of "[example_playlist]" example_seen "[]" "u ''seen''"] l n
  have 1: "fst (get_or_create_osu_playlist (u ''seen'') example_catalog) = Some (u ''p2'')"
    "cat_playlists (snd (get_or_create_osu_playlist (u ''seen'') example_catalog)) =
     cat_playlists example_catalog"
    by simp_all
  have 2: "fst (get_or_create_osu_playlist (u ''Seen'') example_catalog) = Some (u ''new'')"
    "map pl_name (cat_playlists (snd (get_or_create_osu_playlist (u ''Seen'') example_catalog))) =
     [u ''osu'', u ''seen'', u ''Seen'']"
    by (simp_all add: model_eval Let_def)
  from c l n(1) 1 2 show ?thesis by blast
qed

text \<open>
  Claim C7. \<open>process_directory\<close> returns the number of entries it appends to
  \<open>added_tracks\<close>. On a path under which there are charts it runs its loop over
  \<open>rglob\<close> when \<open>recursive\<close> is set and over \<open>glob\<close> otherwise; \<open>glob\<close> yields the
  entries of the directory itself whose name ends in \<^verbatim>\<open>.osu\<close>, \<open>rglob\<close> those at any
  depth below it. For a path that does not exist, and for one under which no such entry
  is, it returns 0, raises nothing and leaves the run as it was. (The source prints the
  error before it returns; what it prints is not modelled.)
\<close>

theorem batch_count_and_enumeration:
  "(\<exists>a d s. grows_by self (snd (process_directory fs dir name chk recursive self)) a d s \<and>
      fst (process_directory fs dir name chk recursive self) = length a) \<and>
   (lookup fs dir = Some d \<and> (if recursive then rglob dir d else glob dir d) \<noteq> [] \<longrightarrow>
      process_directory fs dir name chk recursive self =
        process_files fs (fst (batch_playlist name (spotify self))) chk
          (if recursive then rglob dir d else glob dir d) 0
          (self\<lparr>spotify := snd (batch_playlist name (spotify self))\<rparr>)) \<and>
   set (glob dir d) = {dir @ [n] |n. is_osu_name n \<and> lookup d [n] \<noteq> None} \<and>
   (wf_node d \<longrightarrow>
      set (rglob dir d) = {dir @ q |q. q \<noteq> [] \<and> is_osu_name (last q) \<and> lookup d q \<noteq> None}) \<and>
   (lookup fs dir = None \<or>
    (\<exists>d. lookup fs dir = Some d \<and> (if recursive then rglob dir d else glob dir d) = []) \<longrightarrow>
      process_directory fs dir name chk recursive self = (0, self))"
  using process_directory_grows [of self fs dir name chk recursive]
    process_directory_files [of fs dir d recursive name chk self]
    process_directory_nothing [of fs dir recursive name chk self]
    glob_set [of dir d] rglob_set [of d dir]
  by (intro conjI impI) blast+

theorem batch_count_and_enumeration_witness:
  "lookup example_fs [u ''nowhere''] = None \<and>
   process_directory example_fs [u ''nowhere''] None True True (example_app example_catalog) =
     (0, example_app example_catalog) \<and>
   lookup example_fs [u ''songs'', u ''readme.txt''] = Some (File (Some (u ''hello''))) \<and>
   process_directory example_fs [u ''songs'', u ''readme.txt''] None True False (example_app example_catalog) =
     (0, example_app example_catalog) \<and>
   wf_node example_fs \<and>
   rglob [] example_fs =
     [[u ''songs'', u ''a.osu''], [u ''songs'', u ''b.osu''], [u ''songs'', u ''c.osu''],
      [u ''songs'', u ''more'', u ''d.osu'']] \<and>
   fst (process_directory example_fs [] (Some (u ''osu'')) True True (example_app example_catalog)) = 2 \<and>
   length (added_tracks (snd (process_directory example_fs [] (Some (u ''osu'')) True True
     (example_app example_catalog)))) = 2 \<and>
   length (duplicate_tracks (snd (process_directory example_fs [] (Some (u ''osu'')) True True
     (example_app example_catalog)))) = 1"
proof -
  let ?app = "example_app example_catalog"
  have 1: "lookup example_fs [u ''nowhere''] = None"
    by (simp add: example_fs_def u_def)
  have 2: "process_directory example_fs [u ''nowhere''] None True True ?app = (0, ?app)"
    using 1 batch_count_and_enumeration
      [where self = ?app and fs = example_fs and dir = "[u ''nowhere'']" and name = None
         and chk = True and recursive = True,
       THEN conjunct2, THEN conjunct2, THEN conjunct2, THEN conjunct2]
    by simp
  have 3: "lookup example_fs [u ''songs'', u ''readme.txt''] = Some (File (Some (u ''hello'')))"
    by (simp add: example_fs_def u_def)
  have 4: "process_directory example_fs [u ''songs'', u ''readme.txt''] None True False ?app = (0, ?app)"
    using 3 batch_count_and_enumeration
      [where self = ?app and fs = example_fs and dir = "[u ''songs'', u ''readme.txt'']"
         and name = None and chk = True and recursive = False,
       THEN conjunct2, THEN conjunct2, THEN conjunct2, THEN conjunct2]
    by simp
  have 5: "wf_node example_fs"
    by (simp add: example_fs_def u_def)
  have 6: "rglob [] example_fs =
     [[u ''songs'', u ''a.osu''], [u ''songs'', u ''b.osu''], [u ''songs'', u ''c.osu''],
      [u ''songs'', u ''more'', u ''d.osu'']]"
    by (simp add: example_fs_def is_osu_name_def suffix_to_prefix u_def)
  have 7: "fst (process_directory example_fs [] (Some (u ''osu'')) True True ?app) = 2"
    by (simp add: model_eval)
  from batch_count_and_enumeration
    [THEN conjunct1, of ?app example_fs "[]" "Some (u ''osu'')" True True]
  obtain a d s where
    g: "grows_by ?app (snd (process_directory example_fs [] (Some (u ''osu'')) True True ?app)) a d s"
    and n: "fst (process_directory example_fs [] (Some (u ''osu'')) True True ?app) = length a"
    by blast
  from g have "added_tracks (snd (process_directory example_fs [] (Some (u ''osu'')) True True ?app)) = a"
    by (simp add: grows_by_def example_app_def)
  with n 7 have 8: "length (added_tracks (snd (process_directory example_fs [] (Some (u ''osu'')) True True ?app))) = 2"
    by simp
  have 9: "length (duplicate_tracks (snd (process_directory example_fs [] (Some (u ''osu'')) True True ?app))) = 1"
    by (simp add: model_eval)
  show ?thesis
    by (simp only: 1 2 3 4 5 6 7 8 9 simp_thms)
qed



text \<open>
  Claim C9. When fetching the entries of the target playlist raises,
  \<open>get_playlist_tracks\<close> returns the empty list, \<open>is_track_in_playlist\<close> answers
  false, and the request to add the track is made; nothing is appended to
  \<open>duplicate_tracks\<close>. If the request goes through, the outcome is Added and the
  playlist holds its former entries and the track after them, so a track it already
  held is there twice. If the request raises as well, the outcome is Skipped with the
  text of the error. The error texts are those of the catalog's client: none contains
  the phrase the program searches its own messages for.
\<close>

theorem listing_failure_then_add:
  assumes "reaches_add fs osu_file playlist_id self = Some (t, pid, ps, cat2)"
    and "listing_raises pid cat2"
    and "plain_errors cat2"
  shows "fst (get_playlist_tracks pid cat2) = [] \<and>
         \<not> fst (is_track_in_playlist pid (track_id t) cat2) \<and>
         add_requests (spotify (snd (process_osu_file fs osu_file playlist_id True self))) =
           add_requests (spotify self) @ [PlaylistAddItems pid [track_id t]] \<and>
         duplicate_tracks (snd (process_osu_file fs osu_file playlist_id True self)) =
           duplicate_tracks self \<and>
         (case fst (sp_playlist_add_items pid [track_id t] (snd (get_playlist_tracks pid cat2))) of
            Inr r \<Rightarrow>
              fst (process_osu_file fs osu_file playlist_id True self) = (True, msg_added) \<and>
              grows_by self (snd (process_osu_file fs osu_file playlist_id True self))
                [hit_of t osu_file] [] [] \<and>
              (\<forall>p. find_playlist pid (cat_playlists cat2) = Some p \<longrightarrow>
                 find_playlist pid
                   (cat_playlists (spotify (snd (process_osu_file fs osu_file playlist_id True self)))) =
                 Some (p\<lparr>pl_items := pl_items p @ [Entry (Some (track_id t))]\<rparr>))
          | Inl e \<Rightarrow>
              fst (process_osu_file fs osu_file playlist_id True self) = (False, msg_add_error @ e) \<and>
              grows_by self (snd (process_osu_file fs osu_file playlist_id True self))
                [] [] [skip_of t osu_file (msg_add_error @ e)])"
proof -
  let ?cat = "snd (get_playlist_tracks pid cat2)"
  have e: "fst (get_playlist_tracks pid cat2) = []" using assms(2) by (rule listing_raises_empty)
  then have n: "track_id t \<notin> set (fst (get_playlist_tracks pid cat2))" by simp
  obtain x c where a: "sp_playlist_add_items pid [track_id t] ?cat = (x, c)"
    by (cases "sp_playlist_add_items pid [track_id t] ?cat")
  have l: "add_requests c = add_requests (spotify self) @ [PlaylistAddItems pid [track_id t]]"
    using add_requests_add_items [of pid "[track_id t]" ?cat] a reaches_add_frame [OF assms(1)]
    by (simp add: get_playlist_tracks_frame)
  have pe: "plain_errors ?cat" using assms(3) by (rule plain_errors_get_playlist_tracks)
  show ?thesis
  proof (cases x)
    case (Inl err)
    with a pe have "\<not> contains duplicate_marker err"
      using add_items_error_text [of ?cat pid "[track_id t]" err] by simp
    with Inl a e l show ?thesis
      by (simp add: process_osu_file_reaches [OF assms(1)] add_track_not_member [OF n]
          is_track_in_playlist_eq record_outcome_def grows_by_def marker_in_add_error)
  next
    case (Inr r)
    with a have "cat_playlists c = add_items pid [track_id t] (cat_playlists cat2)"
      using add_items_passes [of pid "[track_id t]" ?cat r] by (simp add: get_playlist_tracks_frame)
    then have "find_playlist pid (cat_playlists c) =
        Some (p\<lparr>pl_items := pl_items p @ [Entry (Some (track_id t))]\<rparr>)"
      if "find_playlist pid (cat_playlists cat2) = Some p" for p
      using that by (simp add: find_playlist_add_items)
    with Inr a e l show ?thesis
      by (simp add: process_osu_file_reaches [OF assms(1)] add_track_not_member [OF n]
          is_track_in_playlist_eq record_outcome_def grows_by_def)
  qed
qed

theorem listing_failure_then_add_witness:
  "reaches_add example_fs [u ''songs'', u ''a.osu''] (Some (u ''p2''))
     (example_app (example_catalog\<lparr>cat_faults := [None, Some (u ''timeout'')]\<rparr>)) =
     Some (example_track, u ''p2'', parser_after [Some example_chart],
       example_catalog\<lparr>cat_faults := [Some (u ''timeout'')],
         cat_log := [Search (u ''track:Freedom Dive artist:xi'')]\<rparr>) \<and>
   listing_raises (u ''p2'')
     (example_catalog\<lparr>cat_faults := [Some (u ''timeout'')],
        cat_log := [Search (u ''track:Freedom Dive artist:xi'')]\<rparr>) \<and>
   plain_errors
     (example_catalog\<lparr>cat_faults := [Some (u ''timeout'')],
        cat_log := [Search (u ''track:Freedom Dive artist:xi'')]\<rparr>) \<and>
   track_id example_track \<in> set (playlist_ids example_seen) \<and>
   fst (process_osu_file example_fs [u ''songs'', u ''a.osu''] (Some (u ''p2'')) True
     (example_app (example_catalog\<lparr>cat_faults := [None, Some (u ''timeout'')]\<rparr>))) = (True, msg_added) \<and>
   grows_by (example_app (example_catalog\<lparr>cat_faults := [None, Some (u ''timeout'')]\<rparr>))
     (snd (process_osu_file example_fs [u ''songs'', u ''a.osu''] (Some (u ''p2'')) True
       (example_app (example_catalog\<lparr>cat_faults := [None, Some (u ''timeout'')]\<rparr>))))
     [hit_of example_track [u ''songs'', u ''a.osu'']] [] [] \<and>
   map_option pl_items (find_playlist (u ''p2'')
     (cat_playlists (spotify (snd (process_osu_file example_fs [u ''songs'', u ''a.osu''] (Some (u ''p2'')) True
       (example_app (example_catalog\<lparr>cat_faults := [None, Some (u ''timeout'')]\<rparr>)))))))
     = Some [Entry (Some (u ''t1'')), Entry (Some (u ''t1''))]"
proof -
  let ?cat2 = "example_catalog\<lparr>cat_faults := [Some (u ''timeout'')],
        cat_log := [Search (u ''track:Freedom Dive artist:xi'')]\<rparr>"
  let ?app = "example_app (example_catalog\<lparr>cat_faults := [None, Some (u ''timeout'')]\<rparr>)"
  have r: "reaches_add example_fs [u ''songs'', u ''a.osu''] (Some (u ''p2'')) ?app
      = Some (example_track, u ''p2'', parser_after [Some example_chart], ?cat2)"
    using example_reaches [of "[None, Some (u ''timeout'')]"] by simp
  have l: "listing_raises (u ''p2'') ?cat2"
    by (simp add: model_eval)
  have pe: "plain_errors ?cat2"
    by (simp add: plain_errors_def example_catalog_def duplicate_marker_def u_def)
  have m: "track_id example_track \<in> set (playlist_ids example_seen)"
    by (simp add: playlist_ids_def example_seen_def example_track_def u_def)
  have a: "fst (sp_playlist_add_items (u ''p2'') [track_id example_track]
             (snd (get_playlist_tracks (u ''p2'') ?cat2))) = Inr ()"
    by (simp add: model_eval)
  have f: "find_playlist (u ''p2'') (cat_playlists ?cat2) = Some example_seen"
    by (simp add: example_catalog_def example_playlist_def example_seen_def u_def)
  from listing_failure_then_add [OF r l pe] a f
  have 1: "fst (process_osu_file example_fs [u ''songs'', u ''a.osu''] (Some (u ''p2'')) True ?app) = (True, msg_added)"
    and 2: "grows_by ?app (snd (process_osu_file example_fs [u ''songs'', u ''a.osu''] (Some (u ''p2'')) True ?app))
     [hit_of example_track [u ''songs'', u ''a.osu'']] [] []"
    and 3: "find_playlist (u ''p2'')
       (cat_playlists (spotify (snd (process_osu_file example_fs [u ''songs'', u ''a.osu''] (Some (u ''p2'')) True ?app))))
       = Some (example_seen\<lparr>pl_items := pl_items example_seen @ [Entry (Some (track_id example_track))]\<rparr>)"
    by simp_all
  from 3 have 4: "map_option pl_items (find_playlist (u ''p2'')
     (cat_playlists (spotify (snd (process_osu_file example_fs [u ''songs'', u ''a.osu''] (Some (u ''p2'')) True ?app)))))
     = Some [Entry (Some (u ''t1'')), Entry (Some (u ''t1''))]"
    by (simp add: example_seen_def example_track_def)
  from r l pe m 1 2 4 show ?thesis by (intro conjI)
qed

text \<open>
  What the hypothesis on the error texts excludes: were the add request to raise with a
  text containing the program's phrase, the entry would go to \<open>duplicate_tracks\<close>.
\<close>

lemma marker_in_error_text_is_duplicate:
  "duplicate_tracks (snd (process_osu_file example_fs [u ''songs'', u ''a.osu''] (Some (u ''p2'')) True
     (example_app (example_catalog\<lparr>cat_faults := [None, Some (u ''timeout''), Some duplicate_marker]\<rparr>))))
     = [hit_of example_track [u ''songs'', u ''a.osu'']]"
  by (simp add: model_eval)

text \<open>
  Claim C10. \<open>search_track\<close> returns \<^verbatim>\<open>None\<close> both when the search request raises and
  when its result is empty, and \<open>process_osu_file\<close> then returns the same pair, with
  the same not-found message, and appends to none of the lists: the caller cannot tell
  the two causes apart.
\<close>

theorem search_failure_is_no_match:
  assumes "fst (parse_osu_file (read_file fs f) (parser self)) = Some m"
    and "fst (sp_search (u ''track:'' @ title m @ u '' artist:'' @ artist m) cat_a) = Inl e"
    and "fst (sp_search (u ''track:'' @ title m @ u '' artist:'' @ artist m) cat_b) = Inr []"
  shows "fst (search_track (title m) (artist m) cat_a) = None \<and>
     fst (search_track (title m) (artist m) cat_b) = None \<and>
     fst (process_osu_file fs f pid chk (self\<lparr>spotify := cat_a\<rparr>)) =
       (False, msg_not_found (title m) (artist m)) \<and>
     fst (process_osu_file fs f pid chk (self\<lparr>spotify := cat_b\<rparr>)) =
       (False, msg_not_found (title m) (artist m)) \<and>
     grows_by self (snd (process_osu_file fs f pid chk (self\<lparr>spotify := cat_a\<rparr>))) [] [] [] \<and>
     grows_by self (snd (process_osu_file fs f pid chk (self\<lparr>spotify := cat_b\<rparr>))) [] [] []"
proof -
  have a: "fst (search_track (title m) (artist m) cat_a) = None"
    using assms(2)
    by (cases "sp_search (u ''track:'' @ title m @ u '' artist:'' @ artist m) cat_a")
       (simp add: search_track_def)
  have b: "fst (search_track (title m) (artist m) cat_b) = None"
    using assms(3)
    by (cases "sp_search (u ''track:'' @ title m @ u '' artist:'' @ artist m) cat_b")
       (simp add: search_track_def)
  have run: "fst (process_osu_file fs f pid chk (self\<lparr>spotify := c\<rparr>)) =
       (False, msg_not_found (title m) (artist m)) \<and>
     grows_by self (snd (process_osu_file fs f pid chk (self\<lparr>spotify := c\<rparr>))) [] [] []"
    if "fst (search_track (title m) (artist m) c) = None" for c
    using assms(1) that
    by (cases "parse_osu_file (read_file fs f) (parser self)";
        cases "search_track (title m) (artist m) c")
       (simp add: process_osu_file_def grows_by_def)
  from a b run [OF a] run [OF b] show ?thesis by blast
qed

theorem search_failure_is_no_match_witness:
  "fst (sp_search (u ''track:Freedom Dive artist:xi'') (example_catalog\<lparr>cat_faults := [Some (u ''timeout'')]\<rparr>))
     = Inl (u ''timeout'') \<and>
   fst (sp_search (u ''track:Freedom Dive artist:xi'') (example_catalog\<lparr>cat_search := \<lambda>q. []\<rparr>)) = Inr [] \<and>
   fst (process_osu_file example_fs [u ''songs'', u ''a.osu''] None True
          (example_app (example_catalog\<lparr>cat_faults := [Some (u ''timeout'')]\<rparr>))) =
     (False, msg_not_found (u ''Freedom Dive'') (u ''xi'')) \<and>
   fst (process_osu_file example_fs [u ''songs'', u ''a.osu''] None True
          (example_app (example_catalog\<lparr>cat_search := \<lambda>q. []\<rparr>))) =
     (False, msg_not_found (u ''Freedom Dive'') (u ''xi''))"
proof -
  let ?m = "\<lparr>title = u ''Freedom Dive'', artist = u ''xi'', version = u ''FOUR DIMENSIONS'',
           creator = u ''Nakagawa-Kanon'', audio_filename = []\<rparr>"
  let ?a = "example_catalog\<lparr>cat_faults := [Some (u ''timeout'')]\<rparr>"
  let ?b = "example_catalog\<lparr>cat_search := \<lambda>q. []\<rparr>"
  have 1: "fst (parse_osu_file (read_file example_fs [u ''songs'', u ''a.osu'']) (parser (example_app example_catalog))) = Some ?m"
    by (simp add: model_eval)
  have q: "u ''track:'' @ title ?m @ u '' artist:'' @ artist ?m = u ''track:Freedom Dive artist:xi''"
    by (simp add: u_def)
  have 2: "fst (sp_search (u ''track:'' @ title ?m @ u '' artist:'' @ artist ?m) ?a) = Inl (u ''timeout'')"
    unfolding q by (simp add: sp_search_def request_def example_catalog_def)
  have 3: "fst (sp_search (u ''track:'' @ title ?m @ u '' artist:'' @ artist ?m) ?b) = Inr []"
    unfolding q by (simp add: sp_search_def request_def example_catalog_def)
  have s: "(example_app example_catalog)\<lparr>spotify := c\<rparr> = example_app c" for c
    by (simp add: example_app_def)
  from search_failure_is_no_match [OF 1 2 3, of None True] 2 3 show ?thesis
    unfolding q s by simp
qed

end
